theory Spec2Isabelle
  imports Complex_Main
begin

section \<open>JavaScript values used by the drag controller\<close>

text \<open>
  Pixel quantities are JavaScript numbers, that is IEEE doubles. What the page hands to
  the controller (pointer coordinates, row heights) is finite and is modelled by the real
  number it denotes. What the controller computes from it in \<open>activate\<close> and \<open>move\<close>
  (the running sum of the heights, the midpoint, the test that decides whether a row gives
  way) is computed in doubles: every sum, difference and product is rounded, may overflow
  to an infinity, and may be \<open>NaN\<close>. The type \<open>jsnum\<close> below holds such results, and
  the rounding of the host's arithmetic is a parameter \<open>fl\<close> of the model: \<open>fl x\<close> is the
  double (or the infinity) that the exact result \<open>x\<close> is rounded to. The offsets of a
  move are differences of two pointer coordinates, which the page reports in whole
  pixels; such a difference is exact.
\<close>

text \<open>Array read \<open>xs[i]\<close>: out of range the value is \<open>undefined\<close>, here \<open>None\<close>.\<close>

definition js_nth :: "'a list \<Rightarrow> int \<Rightarrow> 'a option" where
  "js_nth xs i = (if 0 \<le> i \<and> i < int (length xs) then Some (xs ! nat i) else None)"

text \<open>
  \<open>x > 0\<close> and \<open>x < 0\<close> on a value that may be \<open>undefined\<close> or \<open>NaN\<close>:
  both comparisons are false there.
\<close>

definition js_gt0 :: "real option \<Rightarrow> bool" where
  "js_gt0 v = (case v of None \<Rightarrow> False | Some x \<Rightarrow> x > 0)"

definition js_lt0 :: "real option \<Rightarrow> bool" where
  "js_lt0 v = (case v of None \<Rightarrow> False | Some x \<Rightarrow> x < 0)"

text \<open>\<open>Array.prototype.map\<close> with the callback's index argument.\<close>

fun mapIndexFrom :: "('a \<Rightarrow> int \<Rightarrow> 'b) \<Rightarrow> int \<Rightarrow> 'a list \<Rightarrow> 'b list" where
  "mapIndexFrom f i [] = []"
| "mapIndexFrom f i (x # xs) = f x i # mapIndexFrom f (i + 1) xs"

definition js_map :: "('a \<Rightarrow> int \<Rightarrow> 'b) \<Rightarrow> 'a list \<Rightarrow> 'b list" where
  "js_map f xs = mapIndexFrom f 0 xs"

text \<open>\<open>Array.prototype.indexOf\<close>: the first position of the element, or \<open>-1\<close>.\<close>

fun indexOfFrom :: "int \<Rightarrow> 'a list \<Rightarrow> 'a \<Rightarrow> int" where
  "indexOfFrom i [] y = -1"
| "indexOfFrom i (x # xs) y = (if x = y then i else indexOfFrom (i + 1) xs y)"

definition indexOf :: "'a list \<Rightarrow> 'a \<Rightarrow> int" where
  "indexOf xs y = indexOfFrom 0 xs y"

text \<open>
  The doubles: the finite ones, the two infinities and \<open>NaN\<close>. The quotient \<open>a / b\<close> of
  two finite numbers, as the activation gate takes it: a finite quotient, an infinity
  when only the divisor is zero, \<open>NaN\<close> for \<open>0 / 0\<close>.
\<close>

datatype jsnum = Finite real | PosInfinity | NegInfinity | NaN

definition js_div :: "real \<Rightarrow> real \<Rightarrow> jsnum" where
  "js_div a b =
     (if b \<noteq> 0 then Finite (a / b)
      else if a > 0 then PosInfinity
      else if a < 0 then NegInfinity
      else NaN)"

fun js_abs :: "jsnum \<Rightarrow> jsnum" where
  "js_abs (Finite x) = Finite \<bar>x\<bar>"
| "js_abs PosInfinity = PosInfinity"
| "js_abs NegInfinity = PosInfinity"
| "js_abs NaN = NaN"

fun js_gt :: "jsnum \<Rightarrow> real \<Rightarrow> bool" where
  "js_gt (Finite x) c = (x > c)"
| "js_gt PosInfinity c = True"
| "js_gt NegInfinity c = False"
| "js_gt NaN c = False"

text \<open>
  Addition, subtraction and multiplication of doubles. On two finite operands the exact
  result is rounded by \<open>fl\<close>; the other cases are those of IEEE 754. The sign of a zero is
  not kept: no comparison, no \<open>!==\<close> and no style the controller writes tells \<open>-0\<close>
  from \<open>0\<close>.
\<close>

fun js_neg :: "jsnum \<Rightarrow> jsnum" where
  "js_neg (Finite x) = Finite (- x)"
| "js_neg PosInfinity = NegInfinity"
| "js_neg NegInfinity = PosInfinity"
| "js_neg NaN = NaN"

fun js_add :: "(real \<Rightarrow> jsnum) \<Rightarrow> jsnum \<Rightarrow> jsnum \<Rightarrow> jsnum" where
  "js_add fl (Finite x) (Finite y) = fl (x + y)"
| "js_add fl NaN b = NaN"
| "js_add fl a NaN = NaN"
| "js_add fl PosInfinity NegInfinity = NaN"
| "js_add fl NegInfinity PosInfinity = NaN"
| "js_add fl PosInfinity b = PosInfinity"
| "js_add fl a PosInfinity = PosInfinity"
| "js_add fl NegInfinity b = NegInfinity"
| "js_add fl a NegInfinity = NegInfinity"

definition js_sub :: "(real \<Rightarrow> jsnum) \<Rightarrow> jsnum \<Rightarrow> jsnum \<Rightarrow> jsnum" where
  "js_sub fl a b = js_add fl a (js_neg b)"

fun js_mul :: "(real \<Rightarrow> jsnum) \<Rightarrow> jsnum \<Rightarrow> jsnum \<Rightarrow> jsnum" where
  "js_mul fl (Finite x) (Finite y) = fl (x * y)"
| "js_mul fl NaN b = NaN"
| "js_mul fl a NaN = NaN"
| "js_mul fl (Finite x) PosInfinity =
     (if x = 0 then NaN else if x > 0 then PosInfinity else NegInfinity)"
| "js_mul fl (Finite x) NegInfinity =
     (if x = 0 then NaN else if x > 0 then NegInfinity else PosInfinity)"
| "js_mul fl PosInfinity (Finite y) =
     (if y = 0 then NaN else if y > 0 then PosInfinity else NegInfinity)"
| "js_mul fl NegInfinity (Finite y) =
     (if y = 0 then NaN else if y > 0 then NegInfinity else PosInfinity)"
| "js_mul fl PosInfinity PosInfinity = PosInfinity"
| "js_mul fl PosInfinity NegInfinity = NegInfinity"
| "js_mul fl NegInfinity PosInfinity = NegInfinity"
| "js_mul fl NegInfinity NegInfinity = PosInfinity"

text \<open>\<open>a <= b\<close> on doubles: false as soon as one side is \<open>NaN\<close>.\<close>

fun js_le :: "jsnum \<Rightarrow> jsnum \<Rightarrow> bool" where
  "js_le (Finite x) (Finite y) = (x \<le> y)"
| "js_le NaN b = False"
| "js_le a NaN = False"
| "js_le NegInfinity b = True"
| "js_le a PosInfinity = True"
| "js_le PosInfinity b = False"
| "js_le a NegInfinity = False"


section \<open>Data model\<close>

text \<open>A DOM element: its identity, its tag name and its parent.\<close>

datatype element = Element (elemId: nat) (tagName: string) (parentElement: "element option")

text \<open>The inline style properties the controller writes on a row.\<close>

datatype transform = Translate3d real real real

record style =
  zIndex :: "string option"
  transition :: "string option"
  transform :: "transform option"

text \<open>
  \<open>Partial<TableDndContext>\<close>: every field but the three set by \<open>start\<close> may be
  absent. The bottoms and the midpoint are computed by \<open>activate\<close> and are doubles;
  the source height is read from the page, and the movements are offsets, heights or
  zero, all finite.
\<close>

record tableDndContext =
  startPosition :: "real \<times> real"
  activated :: bool
  source :: element
  sourceIndex :: "int option"
  sourceHeight :: "real option"
  sourceMidPoint :: "jsnum option"
  target :: "element option"
  targetIndex :: "int option"
  rowSeq :: "element list option"
  bottomSeq :: "jsnum list option"
  movememtSeq :: "real list option"

record mouse_event =
  clientX :: real
  clientY :: real
  eventTarget :: element
  currentTarget :: element

text \<open>
  The two gates of \<open>TableDndSortableOptions\<close> decide what the controller does and are
  parameters of the model. The four notification handlers return nothing; each call is
  recorded, with the context it receives, in the list of effects.
\<close>

record options =
  onBeforeDragStart :: "mouse_event \<Rightarrow> bool"
  onBeforeDragActivate :: "mouse_event \<Rightarrow> real \<times> real \<Rightarrow> tableDndContext \<Rightarrow> bool"

datatype effect =
  OnDragStart tableDndContext
| OnDragActivate tableDndContext
| OnDragMove tableDndContext
| OnDrop tableDndContext
| PreventDefault

text \<open>
  What the host page answers at the time of an event: the rows found by
  \<open>table.querySelectorAll('tr')\<close> and the height \<open>getBoundingClientRect\<close> reports.
\<close>

record dom =
  rows :: "element list"
  rowHeight :: "element \<Rightarrow> real"

text \<open>
  The variables closed over by \<open>tableDndSortable\<close>: the context, whether each of the
  three listeners is attached, the styles written so far and the calls made so far.
\<close>

record state =
  ctx :: "tableDndContext option"
  mousedownListener :: bool
  mousemoveListener :: bool
  mouseupListener :: bool
  styles :: "element \<Rightarrow> style"
  effects :: "effect list"

datatype error = TypeError


section \<open>The default activation gate\<close>

text \<open>\<open>(e, [dx, dy]) => Math.abs(dy) > 10 && Math.abs(dy / dx) > 2\<close>\<close>

definition defaultOnBeforeDragActivate :: "mouse_event \<Rightarrow> real \<times> real \<Rightarrow> tableDndContext \<Rightarrow> bool" where
  "defaultOnBeforeDragActivate e delta c =
     (case delta of (dx, dy) \<Rightarrow> \<bar>dy\<bar> > 10 \<and> js_gt (js_abs (js_div dy dx)) 2)"

definition defaultOptions :: options where
  "defaultOptions =
     \<lparr> onBeforeDragStart = (\<lambda>e. True),
       onBeforeDragActivate = defaultOnBeforeDragActivate \<rparr>"


section \<open>Displacement of the rows on a move\<close>

text \<open>
  The two tests of the callback of \<open>bottomSeq.map\<close> in \<open>move\<close>:
  \<open>dy * (index - sourceIndex) > 0\<close> and
  \<open>dy * (sourceMidPoint + dy - bottom - (dy < 0 ? sourceHeight : 0)) > 0\<close>.
  The two indices are whole numbers far below \<open>2^53\<close> and their difference is exact.
\<close>

definition matchDirection :: "(real \<Rightarrow> jsnum) \<Rightarrow> int \<Rightarrow> real \<Rightarrow> int \<Rightarrow> bool" where
  "matchDirection fl srcIndex dy index =
     js_gt (js_mul fl (Finite dy) (Finite (real_of_int (index - srcIndex)))) 0"

definition overMidPoint :: "(real \<Rightarrow> jsnum) \<Rightarrow> real \<Rightarrow> jsnum \<Rightarrow> real \<Rightarrow> jsnum \<Rightarrow> bool" where
  "overMidPoint fl srcHeight srcMidPoint dy bottom =
     js_gt (js_mul fl (Finite dy)
              (js_sub fl (js_sub fl (js_add fl srcMidPoint (Finite dy)) bottom)
                 (Finite (if dy < 0 then srcHeight else 0)))) 0"

text \<open>The callback itself.\<close>

definition rowMovement ::
  "(real \<Rightarrow> jsnum) \<Rightarrow> int \<Rightarrow> real \<Rightarrow> jsnum \<Rightarrow> real \<Rightarrow> jsnum \<Rightarrow> int \<Rightarrow> real" where
  "rowMovement fl srcIndex srcHeight srcMidPoint dy bottom index =
     (if index = srcIndex then dy
      else if matchDirection fl srcIndex dy index \<and> overMidPoint fl srcHeight srcMidPoint dy bottom
           then (if dy > 0 then - srcHeight else srcHeight)
           else 0)"

definition newMovementSeq ::
  "(real \<Rightarrow> jsnum) \<Rightarrow> int \<Rightarrow> real \<Rightarrow> jsnum \<Rightarrow> jsnum list \<Rightarrow> real \<Rightarrow> real list" where
  "newMovementSeq fl srcIndex srcHeight srcMidPoint bottoms dy =
     js_map (rowMovement fl srcIndex srcHeight srcMidPoint dy) bottoms"


section \<open>Drop resolution\<close>

text \<open>
  \<open>while (targetIndex > 0 && movememtSeq[targetIndex - 1] > 0) targetIndex--\<close>
\<close>

function walkUp :: "real list \<Rightarrow> int \<Rightarrow> int" where
  "walkUp m t =
     (if t > 0 \<and> js_gt0 (js_nth m (t - 1)) then walkUp m (t - 1) else t)"
  by pat_completeness auto
termination
  by (relation "measure (\<lambda>(m, t). nat t)") auto

text \<open>
  \<open>while (targetIndex < movememtSeq.length - 1 && movememtSeq[targetIndex + 1] < 0) targetIndex++\<close>
\<close>

function walkDown :: "real list \<Rightarrow> int \<Rightarrow> int" where
  "walkDown m t =
     (if t < int (length m) - 1 \<and> js_lt0 (js_nth m (t + 1)) then walkDown m (t + 1) else t)"
  by pat_completeness auto
termination
  by (relation "measure (\<lambda>(m, t). nat (int (length m) - 1 - t))") auto

text \<open>The two walks of \<open>drop\<close>, the second only when the first left the index alone.\<close>

definition resolveTargetIndex :: "real list \<Rightarrow> int \<Rightarrow> int" where
  "resolveTargetIndex m srcIndex =
     (let t = walkUp m srcIndex
      in if t = srcIndex then walkDown m t else t)"


section \<open>The controller\<close>

text \<open>\<open>start\<close>: a fresh context, not activated, and the call of \<open>onDragStart\<close>.\<close>

definition start :: "element \<Rightarrow> real \<times> real \<Rightarrow> state \<Rightarrow> state" where
  "start src pos st =
     (let c = \<lparr> startPosition = pos, activated = False, source = src,
                 sourceIndex = None, sourceHeight = None, sourceMidPoint = None,
                 target = None, targetIndex = None,
                 rowSeq = None, bottomSeq = None, movememtSeq = None \<rparr>
      in st\<lparr>ctx := Some c, effects := effects st @ [OnDragStart c]\<rparr>)"

text \<open>\<open>for (let height of heightSeq) bottomSeq.push(bottom += height)\<close>\<close>

fun pushBottoms :: "(real \<Rightarrow> jsnum) \<Rightarrow> jsnum \<Rightarrow> real list \<Rightarrow> jsnum list" where
  "pushBottoms fl bottom [] = []"
| "pushBottoms fl bottom (height # heightSeq) =
     js_add fl bottom (Finite height) # pushBottoms fl (js_add fl bottom (Finite height)) heightSeq"

text \<open>
  \<open>activate\<close>: the snapshot of the rows. \<open>bottomSeq[sourceIndex]\<close> is \<open>undefined\<close>
  when \<open>indexOf\<close> answered \<open>-1\<close>, and the sum that gives the midpoint is then \<open>NaN\<close>.
\<close>

definition activate :: "(real \<Rightarrow> jsnum) \<Rightarrow> dom \<Rightarrow> state \<Rightarrow> error + state" where
  "activate fl d st =
     (case ctx st of
        None \<Rightarrow> Inl TypeError
      | Some c \<Rightarrow>
          let src = source c;
              srcHeight = rowHeight d src;
              rowSeq' = rows d;
              heightSeq = map (rowHeight d) rowSeq';
              bottomSeq' = pushBottoms fl (Finite 0) heightSeq;
              srcIndex = indexOf rowSeq' src;
              srcMidPoint =
                js_add fl (case js_nth bottomSeq' srcIndex of None \<Rightarrow> NaN | Some bottom \<Rightarrow> bottom)
                  (fl (srcHeight / 2));
              c' = c\<lparr> activated := True,
                      sourceIndex := Some srcIndex,
                      sourceHeight := Some srcHeight,
                      sourceMidPoint := Some srcMidPoint,
                      rowSeq := Some rowSeq',
                      bottomSeq := Some bottomSeq' \<rparr>
          in Inr (st\<lparr>ctx := Some c', effects := effects st @ [OnDragActivate c']\<rparr>))"

text \<open>
  The loop of \<open>move\<close> that restyles the rows whose movement changed. Reading
  \<open>rowSeq[index]\<close> of a missing array, or the style of a missing row, is a TypeError.
\<close>

fun applyMovement ::
  "element list option \<Rightarrow> real list option \<Rightarrow> int \<Rightarrow> int \<Rightarrow> real list \<Rightarrow>
   (element \<Rightarrow> style) \<Rightarrow> error + (element \<Rightarrow> style)" where
  "applyMovement rs old srcIndex index [] sty = Inr sty"
| "applyMovement rs old srcIndex index (newMovement # rest) sty =
     (case rs of
        None \<Rightarrow> Inl TypeError
      | Some r \<Rightarrow>
          let row = js_nth r index;
              oldMovement = (case old of None \<Rightarrow> Some 0 | Some m \<Rightarrow> js_nth m index)
          in if oldMovement \<noteq> Some newMovement
             then (case row of
                     None \<Rightarrow> Inl TypeError
                   | Some el \<Rightarrow>
                       applyMovement rs old srcIndex (index + 1) rest
                         (sty(el := (sty el)
                            \<lparr> zIndex := Some (if index = srcIndex then ''100'' else ''0''),
                              transition := (if index = srcIndex then Some ''none'' else None),
                              transform := Some (Translate3d 0 newMovement 0) \<rparr>)))
             else applyMovement rs old srcIndex (index + 1) rest sty)"

text \<open>
  \<open>move\<close>. It runs only on an activated context, where \<open>activate\<close> has stored the
  snapshot; on a context without \<open>bottomSeq\<close> the source raises a TypeError, and the
  model answers the same for a context without \<open>sourceIndex\<close> or \<open>sourceHeight\<close>,
  which no handler of the controller produces. A missing midpoint is \<open>undefined\<close>, and
  \<open>undefined + dy\<close> is \<open>NaN\<close>.
\<close>

definition move :: "(real \<Rightarrow> jsnum) \<Rightarrow> real \<Rightarrow> state \<Rightarrow> error + state" where
  "move fl dy st =
     (case ctx st of
        None \<Rightarrow> Inl TypeError
      | Some c \<Rightarrow>
          (case (bottomSeq c, sourceIndex c, sourceHeight c) of
             (Some bottoms, Some srcIndex, Some srcHeight) \<Rightarrow>
               let srcMidPoint = (case sourceMidPoint c of None \<Rightarrow> NaN | Some mid \<Rightarrow> mid);
                   new = newMovementSeq fl srcIndex srcHeight srcMidPoint bottoms dy
               in (case applyMovement (rowSeq c) (movememtSeq c) srcIndex 0 new (styles st) of
                     Inl e \<Rightarrow> Inl e
                   | Inr sty \<Rightarrow>
                       let c' = c\<lparr>movememtSeq := Some new\<rparr>
                       in Inr (st\<lparr>ctx := Some c', styles := sty,
                                   effects := effects st @ [OnDragMove c']\<rparr>))
           | _ \<Rightarrow> Inl TypeError))"

text \<open>The loop of \<open>drop\<close> that resets the style of every row now in the table.\<close>

fun clearStyles :: "element list \<Rightarrow> (element \<Rightarrow> style) \<Rightarrow> (element \<Rightarrow> style)" where
  "clearStyles [] sty = sty"
| "clearStyles (tr # trs) sty =
     clearStyles trs
       (sty(tr := (sty tr)
          \<lparr> zIndex := None,
            transform := Some (Translate3d 0 0 0),
            transition := Some ''none'' \<rparr>))"

text \<open>
  \<open>drop\<close>: on an activated context the two walks, the reset of the styles and the call
  of \<open>onDrop\<close>; in every case the context is cleared last.
\<close>

definition drop_dnd :: "dom \<Rightarrow> state \<Rightarrow> error + state" where
  "drop_dnd d st =
     (case ctx st of
        None \<Rightarrow> Inl TypeError
      | Some c \<Rightarrow>
          if activated c then
            (case (sourceIndex c, movememtSeq c, rowSeq c) of
               (Some srcIndex, Some m, Some r) \<Rightarrow>
                 let tgtIndex = resolveTargetIndex m srcIndex;
                     sty = clearStyles (rows d) (styles st);
                     c' = c\<lparr>targetIndex := Some tgtIndex, target := js_nth r tgtIndex\<rparr>
                 in Inr (st\<lparr>ctx := None, styles := sty, effects := effects st @ [OnDrop c']\<rparr>)
             | _ \<Rightarrow> Inl TypeError)
          else Inr (st\<lparr>ctx := None\<rparr>))"

text \<open>
  \<open>while (source && source.tagName !== 'TR' && source !== evt.currentTarget)
  source = source.parentElement\<close>
\<close>

fun climb :: "element \<Rightarrow> element \<Rightarrow> element option" where
  "climb cur (Element i tag parent) =
     (if tag \<noteq> ''TR'' \<and> Element i tag parent \<noteq> cur
      then (case parent of None \<Rightarrow> None | Some p \<Rightarrow> climb cur p)
      else Some (Element i tag parent))"

definition mousedown :: "options \<Rightarrow> mouse_event \<Rightarrow> state \<Rightarrow> state" where
  "mousedown opts evt st =
     (if \<not> onBeforeDragStart opts evt then st
      else (case climb (currentTarget evt) (eventTarget evt) of
              None \<Rightarrow> st
            | Some src \<Rightarrow>
                if tagName src \<noteq> ''TR'' then st
                else start src (clientX evt, clientY evt) st))"

definition mousemove ::
  "(real \<Rightarrow> jsnum) \<Rightarrow> options \<Rightarrow> dom \<Rightarrow> mouse_event \<Rightarrow> state \<Rightarrow> error + state" where
  "mousemove fl opts d evt st =
     (case ctx st of
        None \<Rightarrow> Inr st
      | Some c \<Rightarrow>
          (case startPosition c of (startX, startY) \<Rightarrow>
             let dx = clientX evt - startX;
                 dy = clientY evt - startY
             in (case (if \<not> activated c \<and> onBeforeDragActivate opts evt (dx, dy) c
                       then activate fl d st else Inr st) of
                   Inl e \<Rightarrow> Inl e
                 | Inr st1 \<Rightarrow>
                     (case ctx st1 of
                        None \<Rightarrow> Inl TypeError
                      | Some c1 \<Rightarrow>
                          if activated c1
                          then move fl dy (st1\<lparr>effects := effects st1 @ [PreventDefault]\<rparr>)
                          else Inr st1))))"

definition mouseup :: "dom \<Rightarrow> state \<Rightarrow> error + state" where
  "mouseup d st = (case ctx st of None \<Rightarrow> Inr st | Some c \<Rightarrow> drop_dnd d st)"

text \<open>\<open>setup\<close> attaches the three listeners, \<open>destroy\<close> detaches them.\<close>

definition setupListeners :: "state \<Rightarrow> state" where
  "setupListeners st = st\<lparr>mousedownListener := True, mousemoveListener := True, mouseupListener := True\<rparr>"

definition destroy :: "state \<Rightarrow> state" where
  "destroy st =
     st\<lparr>mousedownListener := False, mousemoveListener := False, mouseupListener := False\<rparr>"

text \<open>\<open>tableDndSortable\<close>: the closure's variables at their initial values, then \<open>setup\<close>.\<close>

definition tableDndSortable :: "(element \<Rightarrow> style) \<Rightarrow> state" where
  "tableDndSortable sty =
     setupListeners \<lparr> ctx = None, mousedownListener = False, mousemoveListener = False,
             mouseupListener = False, styles = sty, effects = [] \<rparr>"

text \<open>
  What reaches the controller: the three pointer events, delivered to a listener only
  while it is attached, and the call of \<open>destroy\<close> on the returned handle.
\<close>

datatype action = MouseDown mouse_event | MouseMove mouse_event | MouseUp | Destroy

fun dispatch ::
  "(real \<Rightarrow> jsnum) \<Rightarrow> options \<Rightarrow> dom \<Rightarrow> action \<Rightarrow> state \<Rightarrow> error + state" where
  "dispatch fl opts d (MouseDown evt) st =
     (if mousedownListener st then Inr (mousedown opts evt st) else Inr st)"
| "dispatch fl opts d (MouseMove evt) st =
     (if mousemoveListener st then mousemove fl opts d evt st else Inr st)"
| "dispatch fl opts d MouseUp st =
     (if mouseupListener st then mouseup d st else Inr st)"
| "dispatch fl opts d Destroy st = Inr (destroy st)"

text \<open>A run of the page: each action with the page as it is then; a TypeError ends it.\<close>

fun run ::
  "(real \<Rightarrow> jsnum) \<Rightarrow> options \<Rightarrow> (dom \<times> action) list \<Rightarrow> state \<Rightarrow> error + state" where
  "run fl opts [] st = Inr st"
| "run fl opts ((d, a) # rest) st =
     (case dispatch fl opts d a st of Inl e \<Rightarrow> Inl e | Inr st' \<Rightarrow> run fl opts rest st')"


section \<open>Drop resolution as the specification words it\<close>

text \<open>
  The specification describes the target as the source index moved up past the run of
  rows directly above it whose displacement is positive or, when there is no such row,
  moved down past the run of rows directly below it whose displacement is negative.
\<close>

definition rowsShiftedDown :: "real list \<Rightarrow> int \<Rightarrow> nat" where
  "rowsShiftedDown m srcIndex = length (takeWhile (\<lambda>x. x > 0) (rev (take (nat srcIndex) m)))"

definition rowsShiftedUp :: "real list \<Rightarrow> int \<Rightarrow> nat" where
  "rowsShiftedUp m srcIndex = length (takeWhile (\<lambda>x. x < 0) (drop (nat srcIndex + 1) m))"

definition specTargetIndex :: "real list \<Rightarrow> int \<Rightarrow> int" where
  "specTargetIndex m srcIndex =
     (if rowsShiftedDown m srcIndex > 0
      then srcIndex - int (rowsShiftedDown m srcIndex)
      else srcIndex + int (rowsShiftedUp m srcIndex))"


section \<open>The array reads of the two walks\<close>

text \<open>
  The indices at which the loop conditions of \<open>drop\<close> read \<open>movememtSeq\<close>, in the
  order of the reads. The right operand of \<open>&&\<close> is read only when the left one holds.
\<close>

function walkUpReads :: "real list \<Rightarrow> int \<Rightarrow> int list" where
  "walkUpReads m t =
     (if t > 0
      then (t - 1) # (if js_gt0 (js_nth m (t - 1)) then walkUpReads m (t - 1) else [])
      else [])"
  by pat_completeness auto
termination
  by (relation "measure (\<lambda>(m, t). nat t)") auto

function walkDownReads :: "real list \<Rightarrow> int \<Rightarrow> int list" where
  "walkDownReads m t =
     (if t < int (length m) - 1
      then (t + 1) # (if js_lt0 (js_nth m (t + 1)) then walkDownReads m (t + 1) else [])
      else [])"
  by pat_completeness auto
termination
  by (relation "measure (\<lambda>(m, t). nat (int (length m) - 1 - t))") auto

definition resolveReads :: "real list \<Rightarrow> int \<Rightarrow> int list" where
  "resolveReads m srcIndex =
     walkUpReads m srcIndex @
     (if walkUp m srcIndex = srcIndex then walkDownReads m srcIndex else [])"


section \<open>A table of five rows\<close>

text \<open>Five rows of height 40 in a table, a cell of the third row, and a press on it.\<close>

definition exampleTable :: element where
  "exampleTable = Element 0 ''TABLE'' None"

definition exampleRow :: "nat \<Rightarrow> element" where
  "exampleRow i = Element (Suc i) ''TR'' (Some exampleTable)"

definition exampleCell :: element where
  "exampleCell = Element 10 ''TD'' (Some (exampleRow 2))"

definition exampleDom :: dom where
  "exampleDom =
     \<lparr> rows = [exampleRow 0, exampleRow 1, exampleRow 2, exampleRow 3, exampleRow 4],
       rowHeight = (\<lambda>el. 40) \<rparr>"

definition examplePointer :: "real \<Rightarrow> real \<Rightarrow> mouse_event" where
  "examplePointer x y =
     \<lparr> clientX = x, clientY = y, eventTarget = exampleCell, currentTarget = exampleTable \<rparr>"

definition noStyle :: "element \<Rightarrow> style" where
  "noStyle = (\<lambda>el. \<lparr> zIndex = None, transition = None, transform = None \<rparr>)"

text \<open>The context after the press, and after the activation on this table.\<close>

definition exampleArmed :: tableDndContext where
  "exampleArmed =
     \<lparr> startPosition = (100, 100), activated = False, source = exampleRow 2,
       sourceIndex = None, sourceHeight = None, sourceMidPoint = None,
       target = None, targetIndex = None,
       rowSeq = None, bottomSeq = None, movememtSeq = None \<rparr>"

definition exampleActive :: tableDndContext where
  "exampleActive =
     exampleArmed
       \<lparr> activated := True, sourceIndex := Some 2, sourceHeight := Some 40,
         sourceMidPoint := Some (Finite 140), rowSeq := Some (rows exampleDom),
         bottomSeq := Some [Finite 40, Finite 80, Finite 120, Finite 160, Finite 200] \<rparr>"

text \<open>The activated context after a move by 45 pixels.\<close>

definition exampleMoved :: tableDndContext where
  "exampleMoved = exampleActive \<lparr> movememtSeq := Some [0, 0, 45, - 40, 0] \<rparr>"

definition exampleState :: "tableDndContext option \<Rightarrow> state" where
  "exampleState c =
     \<lparr> ctx = c, mousedownListener = True, mousemoveListener = True,
       mouseupListener = True, styles = noStyle, effects = [] \<rparr>"

text \<open>Options whose activation gate refuses every move, and whose start gate refuses every press.\<close>

definition neverActivate :: options where
  "neverActivate = defaultOptions \<lparr> onBeforeDragActivate := (\<lambda>evt delta c. False) \<rparr>"

definition neverStart :: options where
  "neverStart = defaultOptions \<lparr> onBeforeDragStart := (\<lambda>evt. False) \<rparr>"


section \<open>What is asked of the rounding\<close>

text \<open>
  Three properties of the rounding of doubles (round to nearest, ties to even). It leaves
  alone the whole numbers up to \<open>2^53\<close>, which are doubles. It is monotone, and it is
  symmetric about zero. The rounding that leaves every number alone has the three
  properties; it is the arithmetic of the examples, whose numbers are whole.
\<close>

definition exactOnIntegers :: "(real \<Rightarrow> jsnum) \<Rightarrow> bool" where
  "exactOnIntegers fl =
     (\<forall>n::int. \<bar>n\<bar> \<le> 2 ^ 53 \<longrightarrow> fl (real_of_int n) = Finite (real_of_int n))"

definition rounding :: "(real \<Rightarrow> jsnum) \<Rightarrow> bool" where
  "rounding fl =
     ((\<forall>x y. x \<le> y \<longrightarrow> js_le (fl x) (fl y)) \<and> (\<forall>x. fl (- x) = js_neg (fl x)))"

definition exactRounding :: "real \<Rightarrow> jsnum" where
  "exactRounding x = Finite x"


section \<open>The rounding of the doubles\<close>

text \<open>
  Round to nearest, ties to even, as IEEE 754 binary64 has it: 53 significant bits, the
  quantum \<open>2^e\<close> with \<open>e\<close> no lower than \<open>-1074\<close> (the subnormal numbers), and an
  infinity once the rounded value reaches \<open>2^1024\<close>. The sign of a zero is not kept.
\<close>

definition roundEven :: "real \<Rightarrow> int" where
  "roundEven r =
     (let f = \<lfloor>r\<rfloor>; d = r - real_of_int f
      in if d < 1 / 2 then f else if 1 / 2 < d then f + 1 else if even f then f else f + 1)"

definition binary64Exponent :: "real \<Rightarrow> int" where
  "binary64Exponent x = max (\<lfloor>log 2 x\<rfloor> - 52) (- 1074)"

definition binary64Pos :: "real \<Rightarrow> jsnum" where
  "binary64Pos x =
     (let q = 2 powr real_of_int (binary64Exponent x);
          y = real_of_int (roundEven (x / q)) * q
      in if 2 ^ 1024 \<le> y then PosInfinity else Finite y)"

definition binary64 :: "real \<Rightarrow> jsnum" where
  "binary64 x =
     (if x = 0 then Finite 0
      else if 0 < x then binary64Pos x
      else js_neg (binary64Pos (- x)))"

text \<open>The multiple of the quantum nearest to a positive number.\<close>

definition nearest :: "real \<Rightarrow> real" where
  "nearest x =
     real_of_int (roundEven (x / 2 powr real_of_int (binary64Exponent x))) *
     2 powr real_of_int (binary64Exponent x)"


section \<open>Observations on a run\<close>

text \<open>The calls of \<open>onDrop\<close> and of \<open>onDragActivate\<close> among the effects.\<close>

fun isOnDrop :: "effect \<Rightarrow> bool" where
  "isOnDrop (OnDrop c) = True"
| "isOnDrop e = False"

fun isOnDragActivate :: "effect \<Rightarrow> bool" where
  "isOnDragActivate (OnDragActivate c) = True"
| "isOnDragActivate e = False"

text \<open>
  A press is accepted when \<open>mousedown\<close> reaches \<open>start\<close>: the start gate lets it
  through and the climb from the event's target ends on a row.
\<close>

definition accepted :: "options \<Rightarrow> mouse_event \<Rightarrow> bool" where
  "accepted opts evt =
     (onBeforeDragStart opts evt \<and>
      (case climb (currentTarget evt) (eventTarget evt) of
         None \<Rightarrow> False
       | Some src \<Rightarrow> tagName src = ''TR''))"

text \<open>
  The activation gate refuses an action when, for a move, it answers false whatever the
  offset and the context; the state is unactivated when it holds no activated context.
\<close>

definition gateRefuses :: "options \<Rightarrow> action \<Rightarrow> bool" where
  "gateRefuses opts a =
     (case a of MouseMove evt \<Rightarrow> (\<forall>delta c. \<not> onBeforeDragActivate opts evt delta c) | _ \<Rightarrow> True)"

definition unactivated :: "state \<Rightarrow> bool" where
  "unactivated st = (case ctx st of None \<Rightarrow> True | Some c \<Rightarrow> \<not> activated c)"


text \<open>
  The contexts the handlers leave behind: an activated context carries the whole snapshot
  and a movement sequence, with a row and a movement for every bottom.
\<close>

definition wellFormed :: "state \<Rightarrow> bool" where
  "wellFormed st =
     (case ctx st of
        None \<Rightarrow> True
      | Some c \<Rightarrow>
          \<not> activated c \<or>
          (case (sourceIndex c, sourceHeight c, rowSeq c, bottomSeq c, movememtSeq c) of
             (Some s, Some h, Some r, Some b, Some m) \<Rightarrow>
               length r = length b \<and> length m = length b
           | _ \<Rightarrow> False))"

section \<open>Facts about the array helpers\<close>

text \<open>The equations of the loops are unfolded by hand, one iteration at a time.\<close>

declare walkUp.simps [simp del] walkDown.simps [simp del]
  walkUpReads.simps [simp del] walkDownReads.simps [simp del]

lemma length_mapIndexFrom: "length (mapIndexFrom f i xs) = length xs"
  by (induction xs arbitrary: i) auto

lemma nth_mapIndexFrom:
  "k < length xs \<Longrightarrow> mapIndexFrom f i xs ! k = f (xs ! k) (i + int k)"
proof (induction xs arbitrary: i k)
  case Nil
  then show ?case by simp
next
  case (Cons x xs)
  show ?case
  proof (cases k)
    case 0
    then show ?thesis by simp
  next
    case (Suc j)
    with Cons.prems have "j < length xs" by simp
    from Cons.IH [OF this, of "i + 1"] Suc show ?thesis by (simp add: add.assoc)
  qed
qed

lemma length_newMovementSeq:
  "length (newMovementSeq fl s h mid bottoms dy) = length bottoms"
  by (simp add: newMovementSeq_def js_map_def length_mapIndexFrom)

lemma nth_newMovementSeq:
  "i < length bottoms \<Longrightarrow>
   newMovementSeq fl s h mid bottoms dy ! i = rowMovement fl s h mid dy (bottoms ! i) (int i)"
  by (simp add: newMovementSeq_def js_map_def nth_mapIndexFrom)

text \<open>The restyling loop raises no TypeError when \<open>rowSeq\<close> has a row for every movement.\<close>

lemma applyMovement_ok:
  "0 \<le> index \<Longrightarrow> index + int (length new) \<le> int (length r) \<Longrightarrow>
   \<exists>sty'. applyMovement (Some r) old s index new sty = Inr sty'"
proof (induction new arbitrary: index sty)
  case Nil
  then show ?case by simp
next
  case (Cons x new)
  from Cons.prems have idx: "0 \<le> index + 1" "index + 1 + int (length new) \<le> int (length r)"
    by simp_all
  from Cons.prems obtain el where el: "js_nth r index = Some el"
    by (auto simp: js_nth_def)
  show ?case
    using Cons.IH [OF idx] el by (simp add: Let_def)
qed


section \<open>Facts about the rounding\<close>

text \<open>A rounding that is exact on the whole numbers is exact on the numerals.\<close>

lemma fl_numeral:
  assumes "exactOnIntegers fl" and "(numeral n :: int) \<le> 2 ^ 53"
  shows "fl (numeral n) = Finite (numeral n)"
proof -
  from assms(2) have "\<bar>numeral n :: int\<bar> \<le> 2 ^ 53" by simp
  with assms(1) have "fl (real_of_int (numeral n)) = Finite (real_of_int (numeral n))"
    unfolding exactOnIntegers_def by blast
  then show ?thesis by simp
qed

lemma fl_neg_numeral:
  assumes "exactOnIntegers fl" and "(numeral n :: int) \<le> 2 ^ 53"
  shows "fl (- numeral n) = Finite (- numeral n)"
proof -
  from assms(2) have "\<bar>- numeral n :: int\<bar> \<le> 2 ^ 53" by simp
  with assms(1) have "fl (real_of_int (- numeral n)) = Finite (real_of_int (- numeral n))"
    unfolding exactOnIntegers_def by blast
  then show ?thesis by simp
qed

lemma fl_zero:
  assumes "exactOnIntegers fl"
  shows "fl 0 = Finite 0"
proof -
  have "\<bar>0 :: int\<bar> \<le> 2 ^ 53" by simp
  with assms have "fl (real_of_int 0) = Finite (real_of_int 0)"
    unfolding exactOnIntegers_def by blast
  then show ?thesis by simp
qed

lemma exactOnIntegers_exactRounding: "exactOnIntegers exactRounding"
  by (simp add: exactOnIntegers_def exactRounding_def)

lemma rounding_exactRounding: "rounding exactRounding"
  by (simp add: rounding_def exactRounding_def)


section \<open>The displacement computed by a move\<close>



text \<open>
  Claim C3. Five rows of height 40 have the bottoms 40, 80, 120, 160, 200. With the
  third row as source (index 2, height 40, midpoint 140), a move by \<open>dy = 45\<close> gives
  row 3 the displacement \<open>-40\<close>, rows 0, 1 and 4 the displacement \<open>0\<close> and the
  source row \<open>45\<close>; the drop resolves to target index 3. All the numbers met on the
  way are whole, so this holds for every rounding that leaves the whole numbers alone,
  the rounding of the doubles among them.
\<close>

theorem five_rows_drag_45:
  assumes "exactOnIntegers fl"
  shows "pushBottoms fl (Finite 0) (map (rowHeight exampleDom) (rows exampleDom)) =
           [Finite 40, Finite 80, Finite 120, Finite 160, Finite 200] \<and>
         newMovementSeq fl 2 40 (Finite 140)
           [Finite 40, Finite 80, Finite 120, Finite 160, Finite 200] 45 = [0, 0, 45, - 40, 0] \<and>
         resolveTargetIndex
           (newMovementSeq fl 2 40 (Finite 140)
              [Finite 40, Finite 80, Finite 120, Finite 160, Finite 200] 45) 2 = 3"
  by (simp add: exampleDom_def newMovementSeq_def js_map_def rowMovement_def matchDirection_def
      overMidPoint_def js_sub_def fl_numeral [OF assms] fl_neg_numeral [OF assms]
      fl_zero [OF assms]
      resolveTargetIndex_def walkUp.simps walkDown.simps js_nth_def js_gt0_def js_lt0_def)

theorem five_rows_drag_45_witness:
  "pushBottoms exactRounding (Finite 0) (map (rowHeight exampleDom) (rows exampleDom)) =
     [Finite 40, Finite 80, Finite 120, Finite 160, Finite 200] \<and>
   newMovementSeq exactRounding 2 40 (Finite 140)
     [Finite 40, Finite 80, Finite 120, Finite 160, Finite 200] 45 = [0, 0, 45, - 40, 0] \<and>
   resolveTargetIndex
     (newMovementSeq exactRounding 2 40 (Finite 140)
        [Finite 40, Finite 80, Finite 120, Finite 160, Finite 200] 45) 2 = 3"
  using five_rows_drag_45 [OF exactOnIntegers_exactRounding] .

text \<open>
  Claim C6. On the same snapshot a move by \<open>dy = 10\<close> displaces no row but the source,
  and the drop resolves to target index 2, the source's own slot; again for every
  rounding that leaves the whole numbers alone.
\<close>

theorem five_rows_drag_10:
  assumes "exactOnIntegers fl"
  shows "newMovementSeq fl 2 40 (Finite 140)
           [Finite 40, Finite 80, Finite 120, Finite 160, Finite 200] 10 = [0, 0, 10, 0, 0] \<and>
         resolveTargetIndex
           (newMovementSeq fl 2 40 (Finite 140)
              [Finite 40, Finite 80, Finite 120, Finite 160, Finite 200] 10) 2 = 2"
  by (simp add: newMovementSeq_def js_map_def rowMovement_def matchDirection_def
      overMidPoint_def js_sub_def fl_numeral [OF assms] fl_neg_numeral [OF assms]
      fl_zero [OF assms]
      resolveTargetIndex_def walkUp.simps walkDown.simps js_nth_def js_gt0_def js_lt0_def)

theorem five_rows_drag_10_witness:
  "newMovementSeq exactRounding 2 40 (Finite 140)
     [Finite 40, Finite 80, Finite 120, Finite 160, Finite 200] 10 = [0, 0, 10, 0, 0] \<and>
   resolveTargetIndex
     (newMovementSeq exactRounding 2 40 (Finite 140)
        [Finite 40, Finite 80, Finite 120, Finite 160, Finite 200] 10) 2 = 2"
  using five_rows_drag_10 [OF exactOnIntegers_exactRounding] .


section \<open>Which rows are displaced as the drag goes on\<close>

lemma rounding_mono: "rounding fl \<Longrightarrow> x \<le> y \<Longrightarrow> js_le (fl x) (fl y)"
  by (simp add: rounding_def)

lemma rounding_neg: "rounding fl \<Longrightarrow> fl (- x) = js_neg (fl x)"
  by (simp add: rounding_def)

lemma rounding_not_NaN: "rounding fl \<Longrightarrow> fl x \<noteq> NaN"
proof
  assume r: "rounding fl" and n: "fl x = NaN"
  from rounding_mono [OF r, of x x] n show False by simp
qed

lemma rounding_zero: "rounding fl \<Longrightarrow> fl 0 = Finite 0"
proof -
  assume r: "rounding fl"
  from rounding_neg [OF r, of 0] have "fl 0 = js_neg (fl 0)" by simp
  with rounding_not_NaN [OF r, of 0] show ?thesis by (cases "fl 0") auto
qed

lemma js_le_gt: "js_le a b \<Longrightarrow> js_gt a c \<Longrightarrow> js_gt b c"
  by (cases a; cases b) auto

lemma js_le_not_gt: "js_le a (Finite c) \<Longrightarrow> \<not> js_gt a c"
  by (cases a) auto

lemma fl_pos_imp: "rounding fl \<Longrightarrow> js_gt (fl x) 0 \<Longrightarrow> 0 < x"
proof (rule ccontr)
  assume r: "rounding fl" and g: "js_gt (fl x) 0" and "\<not> 0 < x"
  then have "x \<le> 0" by simp
  from rounding_mono [OF r this] rounding_zero [OF r] have "js_le (fl x) (Finite 0)" by simp
  with g show False by (simp add: js_le_not_gt)
qed

lemma fl_gt_mono: "rounding fl \<Longrightarrow> x \<le> y \<Longrightarrow> js_gt (fl x) 0 \<Longrightarrow> js_gt (fl y) 0"
  using js_le_gt rounding_mono by blast

lemma matchDirection_side:
  assumes "rounding fl" and "matchDirection fl s dy i"
  shows "(0 < dy \<and> s < i) \<or> (dy < 0 \<and> i < s)"
proof -
  from assms have "0 < dy * real_of_int (i - s)"
    by (simp add: matchDirection_def fl_pos_imp)
  then show ?thesis by (auto simp: zero_less_mult_iff)
qed

lemma matchDirection_holds:
  assumes "rounding fl" and "fl dy = Finite dy"
    and "(0 < dy \<and> s < i) \<or> (dy < 0 \<and> i < s)"
  shows "matchDirection fl s dy i"
proof -
  from assms(3) show ?thesis
  proof
    assume a: "0 < dy \<and> s < i"
    then have "1 \<le> real_of_int (i - s)" by simp
    with a have "dy * 1 \<le> dy * real_of_int (i - s)" by (intro mult_left_mono) simp_all
    then have "dy \<le> dy * real_of_int (i - s)" by simp
    from rounding_mono [OF assms(1) this] assms(2) a show ?thesis
      by (cases "fl (dy * real_of_int (i - s))") (auto simp: matchDirection_def)
  next
    assume a: "dy < 0 \<and> i < s"
    then have "real_of_int (i - s) \<le> - 1" by simp
    with a have "dy * (- 1) \<le> dy * real_of_int (i - s)"
      by (intro mult_left_mono_neg) simp_all
    then have le: "- dy \<le> dy * real_of_int (i - s)" by simp
    from rounding_neg [OF assms(1), of dy] assms(2) have "fl (- dy) = Finite (- dy)" by simp
    with rounding_mono [OF assms(1) le] a show ?thesis
      by (cases "fl (dy * real_of_int (i - s))") (auto simp: matchDirection_def)
  qed
qed

lemma js_le_PosInfinity: "js_le a PosInfinity = (a \<noteq> NaN)"
  by (cases a) auto

lemma js_le_NegInfinity: "js_le NegInfinity b = (b \<noteq> NaN)"
  by (cases b) auto

lemma js_sub_mono_left:
  "rounding fl \<Longrightarrow> js_le a a' \<Longrightarrow> js_le (js_sub fl a (Finite c)) (js_sub fl a' (Finite c))"
  by (cases a; cases a')
    (auto simp: js_sub_def rounding_mono rounding_not_NaN js_le_PosInfinity js_le_NegInfinity)

text \<open>Taking a larger bottom from the same number gives a smaller difference.\<close>

lemma js_sub_anti_right:
  "rounding fl \<Longrightarrow> js_le b b' \<Longrightarrow> js_le (Finite 0) b \<Longrightarrow> js_sub fl m b' \<noteq> NaN \<Longrightarrow>
   js_le (js_sub fl m b') (js_sub fl m b)"
  by (cases m; cases b; cases b')
    (auto simp: js_sub_def rounding_mono rounding_not_NaN js_le_PosInfinity js_le_NegInfinity)

lemma js_sub_anti_right':
  "rounding fl \<Longrightarrow> js_le b b' \<Longrightarrow> js_le (Finite 0) b \<Longrightarrow>
   js_sub fl m b \<noteq> NaN \<Longrightarrow> js_sub fl m b \<noteq> PosInfinity \<Longrightarrow>
   js_le (js_sub fl m b') (js_sub fl m b)"
  by (cases m; cases b; cases b')
    (auto simp: js_sub_def rounding_mono rounding_not_NaN js_le_PosInfinity js_le_NegInfinity)

text \<open>Taking the same bottom from a larger number gives a larger difference.\<close>

lemma js_sub_mono_left_up:
  "rounding fl \<Longrightarrow> js_le a a' \<Longrightarrow>
   js_sub fl a b \<noteq> NaN \<Longrightarrow> js_sub fl a b \<noteq> NegInfinity \<Longrightarrow>
   js_le (js_sub fl a b) (js_sub fl a' b)"
  by (cases a; cases a'; cases b)
    (auto simp: js_sub_def rounding_mono rounding_not_NaN js_le_PosInfinity js_le_NegInfinity)

lemma js_sub_mono_left_down:
  "rounding fl \<Longrightarrow> js_le a' a \<Longrightarrow>
   js_sub fl a b \<noteq> NaN \<Longrightarrow> js_sub fl a b \<noteq> PosInfinity \<Longrightarrow>
   js_le (js_sub fl a' b) (js_sub fl a b)"
  by (cases a; cases a'; cases b)
    (auto simp: js_sub_def rounding_mono rounding_not_NaN js_le_PosInfinity js_le_NegInfinity)

lemma js_add_mono_right:
  "rounding fl \<Longrightarrow> y \<le> y' \<Longrightarrow> js_add fl m (Finite y) \<noteq> NaN \<Longrightarrow>
   js_le (js_add fl m (Finite y)) (js_add fl m (Finite y'))"
  by (cases m) (auto simp: rounding_mono)

lemma js_sub_NaN_left: "js_sub fl NaN b = NaN"
  by (simp add: js_sub_def)

text \<open>What a positive product tells about the second factor.\<close>

lemma js_mul_pos_D:
  "rounding fl \<Longrightarrow> 0 < d \<Longrightarrow> js_gt (js_mul fl (Finite d) x) 0 \<Longrightarrow> js_gt x 0"
  by (cases x) (auto dest: fl_pos_imp simp: zero_less_mult_iff)

lemma js_mul_neg_D:
  "rounding fl \<Longrightarrow> d < 0 \<Longrightarrow> js_gt (js_mul fl (Finite d) x) 0 \<Longrightarrow> js_gt (js_neg x) 0"
  by (cases x) (auto dest: fl_pos_imp simp: zero_less_mult_iff)

lemma js_mul_pos_mono:
  assumes "rounding fl" and "0 < d" and "d \<le> d'" and "js_le x x'"
    and "js_gt (js_mul fl (Finite d) x) 0"
  shows "js_gt (js_mul fl (Finite d') x') 0"
proof -
  from js_mul_pos_D [OF assms(1,2,5)] have px: "js_gt x 0" .
  show ?thesis
  proof (cases x)
    case (Finite u)
    with px have u: "0 < u" by simp
    show ?thesis
    proof (cases x')
      case (Finite u')
      with assms(4) \<open>x = Finite u\<close> have "u \<le> u'" by simp
      with assms(2,3) u have "d * u \<le> d' * u'" by (intro mult_mono) simp_all
      from fl_gt_mono [OF assms(1) this] assms(5) \<open>x = Finite u\<close> Finite show ?thesis by simp
    next
      case PosInfinity
      with assms(2,3) show ?thesis by simp
    next
      case NegInfinity
      with assms(4) \<open>x = Finite u\<close> show ?thesis by simp
    next
      case NaN
      with assms(4) \<open>x = Finite u\<close> show ?thesis by simp
    qed
  next
    case PosInfinity
    with assms(4) have "x' = PosInfinity" by (cases x') auto
    with assms(2,3) show ?thesis by simp
  next
    case NegInfinity
    with px show ?thesis by simp
  next
    case NaN
    with px show ?thesis by simp
  qed
qed

lemma js_mul_neg_mono:
  assumes "rounding fl" and "d < 0" and "d' \<le> d" and "js_le x' x"
    and "js_gt (js_mul fl (Finite d) x) 0"
  shows "js_gt (js_mul fl (Finite d') x') 0"
proof -
  from js_mul_neg_D [OF assms(1,2,5)] have px: "js_gt (js_neg x) 0" .
  show ?thesis
  proof (cases x)
    case (Finite u)
    with px have u: "u < 0" by simp
    show ?thesis
    proof (cases x')
      case (Finite u')
      with assms(4) \<open>x = Finite u\<close> have "u' \<le> u" by simp
      with assms(2,3) u have "(- d) * (- u) \<le> (- d') * (- u')" by (intro mult_mono) simp_all
      then have "d * u \<le> d' * u'" by simp
      from fl_gt_mono [OF assms(1) this] assms(5) \<open>x = Finite u\<close> Finite show ?thesis by simp
    next
      case NegInfinity
      with assms(2,3) show ?thesis by simp
    next
      case PosInfinity
      with assms(4) \<open>x = Finite u\<close> show ?thesis by simp
    next
      case NaN
      with assms(4) \<open>x = Finite u\<close> show ?thesis by simp
    qed
  next
    case NegInfinity
    with assms(4) have "x' = NegInfinity" by (cases x') auto
    with assms(2,3) show ?thesis by simp
  next
    case PosInfinity
    with px show ?thesis by simp
  next
    case NaN
    with px show ?thesis by simp
  qed
qed

lemma js_add_Finite_NaN: "rounding fl \<Longrightarrow> (js_add fl m (Finite y) = NaN) = (m = NaN)"
  by (cases m) (auto simp: rounding_not_NaN)

lemma js_sub_pos_D:
  "js_gt (js_sub fl y (Finite c)) 0 \<Longrightarrow> y \<noteq> NaN \<and> y \<noteq> NegInfinity"
  by (cases y) (auto simp: js_sub_def)

lemma js_sub_neg_D:
  "js_gt (js_neg (js_sub fl y (Finite c))) 0 \<Longrightarrow> y \<noteq> NaN \<and> y \<noteq> PosInfinity"
  by (cases y) (auto simp: js_sub_def)

lemma js_sub_not_NaN_D: "js_sub fl m b \<noteq> NaN \<Longrightarrow> m \<noteq> NaN"
  by (cases m) (auto simp: js_sub_def)

text \<open>Going down: a row whose bottom is no lower gives way as well.\<close>

lemma overMidPoint_nearer_down:
  assumes r: "rounding fl" and dy: "0 < dy"
    and le: "js_le b b'" and nonneg: "js_le (Finite 0) b"
    and over: "overMidPoint fl h mid dy b'"
  shows "overMidPoint fl h mid dy b"
proof -
  let ?M = "js_add fl mid (Finite dy)"
  from over dy have p: "js_gt (js_mul fl (Finite dy) (js_sub fl (js_sub fl ?M b') (Finite 0))) 0"
    by (simp add: overMidPoint_def)
  from js_mul_pos_D [OF r dy p] have "js_sub fl ?M b' \<noteq> NaN"
    using js_sub_pos_D by blast
  from js_sub_anti_right [OF r le nonneg this]
  have "js_le (js_sub fl ?M b') (js_sub fl ?M b)" .
  from js_sub_mono_left [OF r this]
  have "js_le (js_sub fl (js_sub fl ?M b') (Finite 0)) (js_sub fl (js_sub fl ?M b) (Finite 0))" .
  from js_mul_pos_mono [OF r dy order_refl this p] dy show ?thesis
    by (simp add: overMidPoint_def)
qed

text \<open>Going up: a row whose bottom is no higher gives way as well.\<close>

lemma overMidPoint_nearer_up:
  assumes r: "rounding fl" and dy: "dy < 0"
    and le: "js_le b b'" and nonneg: "js_le (Finite 0) b"
    and over: "overMidPoint fl h mid dy b"
  shows "overMidPoint fl h mid dy b'"
proof -
  let ?M = "js_add fl mid (Finite dy)"
  from over dy have p: "js_gt (js_mul fl (Finite dy) (js_sub fl (js_sub fl ?M b) (Finite h))) 0"
    by (simp add: overMidPoint_def)
  from js_mul_neg_D [OF r dy p]
  have "js_sub fl ?M b \<noteq> NaN" "js_sub fl ?M b \<noteq> PosInfinity"
    using js_sub_neg_D by blast+
  from js_sub_anti_right' [OF r le nonneg this]
  have "js_le (js_sub fl ?M b') (js_sub fl ?M b)" .
  from js_sub_mono_left [OF r this]
  have "js_le (js_sub fl (js_sub fl ?M b') (Finite h)) (js_sub fl (js_sub fl ?M b) (Finite h))" .
  from js_mul_neg_mono [OF r dy order_refl this p] dy show ?thesis
    by (simp add: overMidPoint_def)
qed

text \<open>A row that has given way stays so when the drag goes further the same way.\<close>

lemma overMidPoint_further_down:
  assumes r: "rounding fl" and dy: "0 < dy" and further: "dy \<le> dy'"
    and over: "overMidPoint fl h mid dy b"
  shows "overMidPoint fl h mid dy' b"
proof -
  let ?M = "js_add fl mid (Finite dy)" and ?M' = "js_add fl mid (Finite dy')"
  from over dy have p: "js_gt (js_mul fl (Finite dy) (js_sub fl (js_sub fl ?M b) (Finite 0))) 0"
    by (simp add: overMidPoint_def)
  from js_mul_pos_D [OF r dy p]
  have y: "js_sub fl ?M b \<noteq> NaN" "js_sub fl ?M b \<noteq> NegInfinity"
    using js_sub_pos_D by blast+
  from y(1) have "?M \<noteq> NaN" by (rule js_sub_not_NaN_D)
  from js_add_mono_right [OF r further this] have "js_le ?M ?M'" .
  from js_sub_mono_left_up [OF r this y]
  have "js_le (js_sub fl ?M b) (js_sub fl ?M' b)" .
  from js_sub_mono_left [OF r this]
  have "js_le (js_sub fl (js_sub fl ?M b) (Finite 0)) (js_sub fl (js_sub fl ?M' b) (Finite 0))" .
  from js_mul_pos_mono [OF r dy further this p] dy further show ?thesis
    by (simp add: overMidPoint_def)
qed

lemma overMidPoint_further_up:
  assumes r: "rounding fl" and dy: "dy < 0" and further: "dy' \<le> dy"
    and over: "overMidPoint fl h mid dy b"
  shows "overMidPoint fl h mid dy' b"
proof -
  let ?M = "js_add fl mid (Finite dy)" and ?M' = "js_add fl mid (Finite dy')"
  from over dy have p: "js_gt (js_mul fl (Finite dy) (js_sub fl (js_sub fl ?M b) (Finite h))) 0"
    by (simp add: overMidPoint_def)
  from js_mul_neg_D [OF r dy p]
  have y: "js_sub fl ?M b \<noteq> NaN" "js_sub fl ?M b \<noteq> PosInfinity"
    using js_sub_neg_D by blast+
  from y(1) have "?M \<noteq> NaN" by (rule js_sub_not_NaN_D)
  then have "?M' \<noteq> NaN" by (simp add: js_add_Finite_NaN [OF r])
  from js_add_mono_right [OF r further this] have "js_le ?M' ?M" .
  from js_sub_mono_left_down [OF r this y]
  have "js_le (js_sub fl ?M' b) (js_sub fl ?M b)" .
  from js_sub_mono_left [OF r this]
  have "js_le (js_sub fl (js_sub fl ?M' b) (Finite h)) (js_sub fl (js_sub fl ?M b) (Finite h))" .
  from js_mul_neg_mono [OF r dy further this p] dy further show ?thesis
    by (simp add: overMidPoint_def)
qed

text \<open>A neighbour of the source is displaced when the two tests hold and the source has a height.\<close>

lemma rowMovement_displaced_iff:
  "index \<noteq> s \<Longrightarrow>
   (rowMovement fl s h mid dy b index \<noteq> 0) =
     (h \<noteq> 0 \<and> matchDirection fl s dy index \<and> overMidPoint fl h mid dy b)"
  by (simp add: rowMovement_def)

lemma rowMovement_displaced_value:
  "index \<noteq> s \<Longrightarrow> rowMovement fl s h mid dy b index \<noteq> 0 \<Longrightarrow>
   rowMovement fl s h mid dy b index = (if 0 < dy then - h else h)"
  by (simp add: rowMovement_def split: if_splits)

text \<open>
  Claim C5, as the code has it. Let the rounding be that of the doubles (monotone and
  symmetric), let the offset \<open>dy\<close> be a double, and let the bottoms be non-negative
  and non-decreasing. A row other than the source is displaced exactly when the source
  has a height and the two tests of the move hold for it, the products, the sum and the
  differences taken in doubles. When it is displaced, its displacement is minus the
  source height (drag down) or the source height (drag up); it lies on the side the drag
  heads to; every row between the source and it has the same displacement, so that the
  displaced rows are contiguous to the source and a nearer row is never displaced after
  a farther one; and it keeps its displacement at every offset further in the same
  direction.
\<close>

theorem displaced_rows_contiguous:
  assumes r: "rounding fl" and dbl: "fl dy = Finite dy"
    and nonneg: "\<forall>k < length bottoms. js_le (Finite 0) (bottoms ! k)"
    and sorted: "\<forall>j k. j \<le> k \<and> k < length bottoms \<longrightarrow> js_le (bottoms ! j) (bottoms ! k)"
    and i: "i < length bottoms" and src: "int i \<noteq> s"
  shows "(newMovementSeq fl s h mid bottoms dy ! i \<noteq> 0) =
           (h \<noteq> 0 \<and>
            js_gt (js_mul fl (Finite dy) (Finite (real_of_int (int i - s)))) 0 \<and>
            js_gt (js_mul fl (Finite dy)
                     (js_sub fl (js_sub fl (js_add fl mid (Finite dy)) (bottoms ! i))
                        (Finite (if dy < 0 then h else 0)))) 0) \<and>
         (newMovementSeq fl s h mid bottoms dy ! i \<noteq> 0 \<longrightarrow>
            newMovementSeq fl s h mid bottoms dy ! i = (if 0 < dy then - h else h) \<and>
            ((0 < dy \<and> s < int i) \<or> (dy < 0 \<and> int i < s)) \<and>
            (\<forall>j < length bottoms. (s < int j \<and> j \<le> i) \<or> (i \<le> j \<and> int j < s) \<longrightarrow>
               newMovementSeq fl s h mid bottoms dy ! j =
               newMovementSeq fl s h mid bottoms dy ! i) \<and>
            (\<forall>dy'. fl dy' = Finite dy' \<and> ((0 < dy \<and> dy \<le> dy') \<or> (dy' \<le> dy \<and> dy < 0)) \<longrightarrow>
               newMovementSeq fl s h mid bottoms dy' ! i =
               newMovementSeq fl s h mid bottoms dy ! i))"
proof (intro conjI impI)
  show "(newMovementSeq fl s h mid bottoms dy ! i \<noteq> 0) =
           (h \<noteq> 0 \<and>
            js_gt (js_mul fl (Finite dy) (Finite (real_of_int (int i - s)))) 0 \<and>
            js_gt (js_mul fl (Finite dy)
                     (js_sub fl (js_sub fl (js_add fl mid (Finite dy)) (bottoms ! i))
                        (Finite (if dy < 0 then h else 0)))) 0)"
    using i src
    by (simp add: nth_newMovementSeq rowMovement_displaced_iff matchDirection_def
        overMidPoint_def)
next
  let ?mv = "\<lambda>dy j. rowMovement fl s h mid dy (bottoms ! j) (int j)"
  assume "newMovementSeq fl s h mid bottoms dy ! i \<noteq> 0"
  with i have nz: "?mv dy i \<noteq> 0" by (simp add: nth_newMovementSeq)
  with src have val: "?mv dy i = (if 0 < dy then - h else h)"
    by (simp add: rowMovement_displaced_value)
  from nz src have h: "h \<noteq> 0" and md: "matchDirection fl s dy (int i)"
    and over: "overMidPoint fl h mid dy (bottoms ! i)"
    by (simp_all add: rowMovement_displaced_iff)
  from matchDirection_side [OF r md]
  have side: "(0 < dy \<and> s < int i) \<or> (dy < 0 \<and> int i < s)" .
  show "newMovementSeq fl s h mid bottoms dy ! i = (if 0 < dy then - h else h)"
    using val i by (simp add: nth_newMovementSeq)
  show "(0 < dy \<and> s < int i) \<or> (dy < 0 \<and> int i < s)" by (rule side)
  show "\<forall>j < length bottoms. (s < int j \<and> j \<le> i) \<or> (i \<le> j \<and> int j < s) \<longrightarrow>
          newMovementSeq fl s h mid bottoms dy ! j = newMovementSeq fl s h mid bottoms dy ! i"
  proof (intro allI impI)
    fix j
    assume j: "j < length bottoms"
      and between: "(s < int j \<and> j \<le> i) \<or> (i \<le> j \<and> int j < s)"
    from between have js: "int j \<noteq> s" by auto
    from nonneg j have nj: "js_le (Finite 0) (bottoms ! j)" by simp
    from nonneg i have ni: "js_le (Finite 0) (bottoms ! i)" by simp
    from side have "matchDirection fl s dy (int j) \<and> overMidPoint fl h mid dy (bottoms ! j)"
    proof
      assume d: "0 < dy \<and> s < int i"
      with between have le: "j \<le> i" and sj: "s < int j" by auto
      from sorted le i have "js_le (bottoms ! j) (bottoms ! i)" by simp
      from overMidPoint_nearer_down [OF r _ this nj over] d
      have "overMidPoint fl h mid dy (bottoms ! j)" by simp
      moreover from matchDirection_holds [OF r dbl, of s "int j"] d sj
      have "matchDirection fl s dy (int j)" by simp
      ultimately show ?thesis by simp
    next
      assume u: "dy < 0 \<and> int i < s"
      with between have le: "i \<le> j" and sj: "int j < s" by auto
      from sorted le j have "js_le (bottoms ! i) (bottoms ! j)" by simp
      from overMidPoint_nearer_up [OF r _ this ni over] u
      have "overMidPoint fl h mid dy (bottoms ! j)" by simp
      moreover from matchDirection_holds [OF r dbl, of s "int j"] u sj
      have "matchDirection fl s dy (int j)" by simp
      ultimately show ?thesis by simp
    qed
    with h js have "?mv dy j \<noteq> 0" by (simp add: rowMovement_displaced_iff)
    with js have "?mv dy j = (if 0 < dy then - h else h)"
      by (simp add: rowMovement_displaced_value)
    with val i j show
      "newMovementSeq fl s h mid bottoms dy ! j = newMovementSeq fl s h mid bottoms dy ! i"
      by (simp add: nth_newMovementSeq)
  qed
  show "\<forall>dy'. fl dy' = Finite dy' \<and> ((0 < dy \<and> dy \<le> dy') \<or> (dy' \<le> dy \<and> dy < 0)) \<longrightarrow>
          newMovementSeq fl s h mid bottoms dy' ! i = newMovementSeq fl s h mid bottoms dy ! i"
  proof (intro allI impI)
    fix dy'
    assume a: "fl dy' = Finite dy' \<and> ((0 < dy \<and> dy \<le> dy') \<or> (dy' \<le> dy \<and> dy < 0))"
    then have dbl': "fl dy' = Finite dy'"
      and further: "(0 < dy \<and> dy \<le> dy') \<or> (dy' \<le> dy \<and> dy < 0)" by simp_all
    from further side have side': "(0 < dy' \<and> s < int i) \<or> (dy' < 0 \<and> int i < s)"
      and same: "(0 < dy') = (0 < dy)" by auto
    from further have "overMidPoint fl h mid dy' (bottoms ! i)"
    proof
      assume "0 < dy \<and> dy \<le> dy'"
      then show ?thesis using overMidPoint_further_down [OF r _ _ over] by simp
    next
      assume "dy' \<le> dy \<and> dy < 0"
      then show ?thesis using overMidPoint_further_up [OF r _ _ over] by simp
    qed
    moreover from matchDirection_holds [OF r dbl' side']
    have "matchDirection fl s dy' (int i)" .
    ultimately have "?mv dy' i \<noteq> 0" using h src by (simp add: rowMovement_displaced_iff)
    with src have "?mv dy' i = (if 0 < dy' then - h else h)"
      by (simp add: rowMovement_displaced_value)
    with val same i show
      "newMovementSeq fl s h mid bottoms dy' ! i = newMovementSeq fl s h mid bottoms dy ! i"
      by (simp add: nth_newMovementSeq)
  qed
qed

lemma exactRounding_tests:
  "matchDirection exactRounding s dy i = (0 < dy * real_of_int (i - s))"
  "overMidPoint exactRounding h (Finite mid) dy (Finite b) =
     (0 < dy * (mid + dy - b - (if dy < 0 then h else 0)))"
  by (simp_all add: matchDirection_def overMidPoint_def js_sub_def exactRounding_def)

theorem displaced_rows_contiguous_witness:
  "newMovementSeq exactRounding 2 40 (Finite 140)
     [Finite 40, Finite 80, Finite 120, Finite 160, Finite 200] 65 ! 4 = - 40 \<and>
   newMovementSeq exactRounding 2 40 (Finite 140)
     [Finite 40, Finite 80, Finite 120, Finite 160, Finite 200] 65 ! 3 = - 40 \<and>
   newMovementSeq exactRounding 2 40 (Finite 140)
     [Finite 40, Finite 80, Finite 120, Finite 160, Finite 200] 100 ! 4 = - 40 \<and>
   newMovementSeq exactRounding 2 40 (Finite 140)
     [Finite 40, Finite 80, Finite 120, Finite 160, Finite 200] 20 ! 3 = 0 \<and>
   newMovementSeq exactRounding 2 40 (Finite 140)
     [Finite 40, Finite 80, Finite 120, Finite 160, Finite 200] (41 / 2) ! 3 \<noteq> 0"
proof -
  let ?b = "[Finite 40, Finite 80, Finite 120, Finite 160, Finite 200]"
  let ?ms = "newMovementSeq exactRounding 2 40 (Finite 140) ?b"
  have nonneg: "\<forall>k < length ?b. js_le (Finite 0) (?b ! k)"
    by (simp add: nth_Cons split: nat.split)
  have sorted: "\<forall>j k. j \<le> k \<and> k < length ?b \<longrightarrow> js_le (?b ! j) (?b ! k)"
    by (simp add: nth_Cons split: nat.split)
  have dbl: "exactRounding dy = Finite dy" for dy by (simp add: exactRounding_def)
  have i4: "4 < length ?b" "int 4 \<noteq> 2" and i3: "3 < length ?b" "int 3 \<noteq> 2" by simp_all
  note t65 = displaced_rows_contiguous
    [where fl = exactRounding and dy = 65 and h = 40 and mid = "Finite 140" and bottoms = ?b
       and i = 4 and s = 2, OF rounding_exactRounding dbl nonneg sorted i4]
  note t20 = displaced_rows_contiguous
    [where fl = exactRounding and dy = 20 and h = 40 and mid = "Finite 140" and bottoms = ?b
       and i = 3 and s = 2, OF rounding_exactRounding dbl nonneg sorted i3]
  note t41 = displaced_rows_contiguous
    [where fl = exactRounding and dy = "41 / 2" and h = 40 and mid = "Finite 140"
       and bottoms = ?b and i = 3 and s = 2, OF rounding_exactRounding dbl nonneg sorted i3]
  have nz: "?ms 65 ! 4 \<noteq> 0"
    unfolding t65 [THEN conjunct1]
    by (simp add: js_sub_def exactRounding_def)
  note c = t65 [THEN conjunct2, rule_format, OF nz]
  from c have one: "?ms 65 ! 4 = - 40" by simp
  have "?ms 65 ! 3 = ?ms 65 ! 4"
    by (rule c [THEN conjunct2, THEN conjunct2, THEN conjunct1, rule_format, of 3]) simp_all
  with one have two: "?ms 65 ! 3 = - 40" by simp
  have "?ms 100 ! 4 = ?ms 65 ! 4"
    by (rule c [THEN conjunct2, THEN conjunct2, THEN conjunct2, rule_format, of 100])
      (simp add: exactRounding_def)
  with one have three: "?ms 100 ! 4 = - 40" by simp
  have four: "?ms 20 ! 3 = 0"
    using t20 [THEN conjunct1]
    by (simp add: js_sub_def exactRounding_def)
  have five: "?ms (41 / 2) ! 3 \<noteq> 0"
    unfolding t41 [THEN conjunct1]
    by (simp add: js_sub_def exactRounding_def)
  from one two three four five show ?thesis by blast
qed

text \<open>
  Claim C5 as stated asks for more: that the rows are displaced one at a time. With a
  source row of height 40 followed by two rows of height 5 (bottoms 40, 45, 50, midpoint
  60) there is no offset at which the first row below the source is displaced and the
  second is not: both boundaries lie behind the start of the drag, and the two rows are
  displaced together as soon as \<open>dy\<close> is positive.
\<close>

theorem rows_displaced_together:
  "\<not> (\<exists>dy. newMovementSeq exactRounding 0 40 (Finite 60) [Finite 40, Finite 45, Finite 50] dy ! 1 \<noteq> 0 \<and>
            newMovementSeq exactRounding 0 40 (Finite 60) [Finite 40, Finite 45, Finite 50] dy ! 2 = 0)"
proof
  assume "\<exists>dy. newMovementSeq exactRounding 0 40 (Finite 60) [Finite 40, Finite 45, Finite 50] dy ! 1 \<noteq> 0 \<and>
            newMovementSeq exactRounding 0 40 (Finite 60) [Finite 40, Finite 45, Finite 50] dy ! 2 = 0"
  then obtain dy
    where one: "newMovementSeq exactRounding 0 40 (Finite 60) [Finite 40, Finite 45, Finite 50] dy ! 1 \<noteq> 0"
      and two: "newMovementSeq exactRounding 0 40 (Finite 60) [Finite 40, Finite 45, Finite 50] dy ! 2 = 0"
    by blast
  from one have "rowMovement exactRounding 0 40 (Finite 60) dy (Finite 45) 1 \<noteq> 0"
    by (simp add: nth_newMovementSeq)
  then have "0 < dy * real_of_int (1 - 0)"
    by (simp add: rowMovement_displaced_iff exactRounding_tests)
  then have pos: "0 < dy" by simp
  from two have "rowMovement exactRounding 0 40 (Finite 60) dy (Finite 50) 2 = 0"
    by (simp add: nth_newMovementSeq)
  then have "\<not> (0 < dy * real_of_int (2 - 0) \<and> 0 < dy * (60 + dy - 50 - (if dy < 0 then 40 else 0)))"
    using rowMovement_displaced_iff [of 2 0 exactRounding 40 "Finite 60" dy "Finite 50"]
    by (simp add: exactRounding_tests)
  with pos show False by (simp add: zero_less_mult_iff)
qed


section \<open>Drop resolution: the two walks\<close>

lemma walkUp_takeWhile:
  "0 \<le> t \<Longrightarrow> t \<le> int (length m) \<Longrightarrow>
   walkUp m t = t - int (length (takeWhile (\<lambda>x. x > 0) (rev (take (nat t) m))))"
proof (induction m t rule: walkUp.induct)
  case (1 m t)
  show ?case
  proof (cases "t > 0")
    case False
    with "1.prems" have "t = 0" by simp
    then show ?thesis by (subst walkUp.simps) simp
  next
    case True
    define k where "k = nat (t - 1)"
    from True "1.prems" have k: "k < length m" "nat t = Suc k" "t - 1 = int k"
      by (simp_all add: k_def)
    have tk: "take (nat t) m = take k m @ [m ! k]"
      using k by (simp add: take_Suc_conv_app_nth)
    have rd: "js_nth m (t - 1) = Some (m ! k)"
      using k by (simp add: js_nth_def)
    show ?thesis
    proof (cases "m ! k > 0")
      case pos: True
      with True rd have "walkUp m t = walkUp m (t - 1)"
        by (subst walkUp.simps) (simp add: js_gt0_def)
      also have "\<dots> = (t - 1) - int (length (takeWhile (\<lambda>x. x > 0) (rev (take (nat (t - 1)) m))))"
        using "1.IH" True rd pos "1.prems" by (simp add: js_gt0_def)
      also have "nat (t - 1) = k" by (simp add: k_def)
      finally have "walkUp m t = (t - 1) - int (length (takeWhile (\<lambda>x. x > 0) (rev (take k m))))" .
      with tk pos show ?thesis by simp
    next
      case npos: False
      with rd have "walkUp m t = t"
        by (subst walkUp.simps) (simp add: js_gt0_def)
      with tk npos show ?thesis by simp
    qed
  qed
qed

lemma walkDown_takeWhile:
  "0 \<le> t \<Longrightarrow>
   walkDown m t = t + int (length (takeWhile (\<lambda>x. x < 0) (drop (nat t + 1) m)))"
proof (induction m t rule: walkDown.induct)
  case (1 m t)
  show ?case
  proof (cases "t < int (length m) - 1")
    case False
    then have "walkDown m t = t" by (subst walkDown.simps) simp
    moreover from False "1.prems" have "drop (nat t + 1) m = []" by simp
    ultimately show ?thesis by simp
  next
    case True
    define k where "k = nat t + 1"
    from True "1.prems" have k: "k < length m" "t + 1 = int k" "nat (t + 1) = k"
      by (simp_all add: k_def)
    have dk: "drop k m = m ! k # drop (Suc k) m"
      using k by (simp add: Cons_nth_drop_Suc)
    have rd: "js_nth m (t + 1) = Some (m ! k)"
      using k by (simp add: js_nth_def)
    show ?thesis
    proof (cases "m ! k < 0")
      case neg: True
      with True rd have "walkDown m t = walkDown m (t + 1)"
        by (subst walkDown.simps) (simp add: js_lt0_def)
      also have "\<dots> = (t + 1) + int (length (takeWhile (\<lambda>x. x < 0) (drop (nat (t + 1) + 1) m)))"
        using "1.IH" True rd neg "1.prems" by (simp add: js_lt0_def)
      also have "nat (t + 1) + 1 = Suc k" using k by simp
      finally have "walkDown m t = (t + 1) + int (length (takeWhile (\<lambda>x. x < 0) (drop (Suc k) m)))" .
      moreover have "drop (nat t + 1) m = drop k m" by (simp add: k_def)
      ultimately show ?thesis using dk neg by simp
    next
      case nneg: False
      from nneg rd have "walkDown m t = t"
        by (subst walkDown.simps) (simp add: js_lt0_def)
      moreover have "drop (nat t + 1) m = drop k m" by (simp add: k_def)
      ultimately show ?thesis using dk nneg by simp
    qed
  qed
qed

lemma resolveTargetIndex_spec:
  assumes "0 \<le> s" and "s < int (length m)"
  shows "resolveTargetIndex m s = specTargetIndex m s"
proof -
  from assms have up: "walkUp m s = s - int (rowsShiftedDown m s)"
    by (simp add: walkUp_takeWhile rowsShiftedDown_def)
  from assms have down: "walkDown m s = s + int (rowsShiftedUp m s)"
    by (simp add: walkDown_takeWhile rowsShiftedUp_def)
  from up down show ?thesis
    by (simp add: resolveTargetIndex_def specTargetIndex_def Let_def)
qed

text \<open>
  Claim C2. On an activated context with movement sequence \<open>m\<close> and a source index
  \<open>s\<close> inside it, \<open>drop\<close> returns, calls \<open>onDrop\<close> once and clears the context. The
  target index it reports is the one the two loops compute, and it is the index the
  specification words: \<open>s\<close> lowered past the run of strictly positive entries directly
  above it or, only when that run is empty, raised past the run of strictly negative
  entries directly below it. It depends on \<open>m\<close> and \<open>s\<close> alone, not on the page, the
  styles or the calls made before.
\<close>

theorem drop_resolution:
  assumes "ctx st = Some c" and "activated c"
    and "sourceIndex c = Some s" and "movememtSeq c = Some m" and "rowSeq c = Some r"
    and "0 \<le> s" and "s < int (length m)"
  shows "\<exists>st' c'. drop_dnd d st = Inr st' \<and> ctx st' = None \<and>
           effects st' = effects st @ [OnDrop c'] \<and>
           targetIndex c' = Some (resolveTargetIndex m s) \<and>
           resolveTargetIndex m s = specTargetIndex m s"
  using assms resolveTargetIndex_spec [OF assms(6,7)]
  by (simp add: drop_dnd_def Let_def)

theorem drop_resolution_witness:
  "\<exists>st' c'. drop_dnd exampleDom (exampleState (Some exampleMoved)) = Inr st' \<and> ctx st' = None \<and>
      effects st' = [OnDrop c'] \<and> targetIndex c' = Some 3 \<and>
      specTargetIndex [0, 0, 45, - 40, 0] 2 = 3"
proof -
  have h: "ctx (exampleState (Some exampleMoved)) = Some exampleMoved" "activated exampleMoved"
    "sourceIndex exampleMoved = Some 2" "movememtSeq exampleMoved = Some [0, 0, 45, - 40, 0]"
    "rowSeq exampleMoved = Some (rows exampleDom)"
    "(0::int) \<le> 2" "2 < int (length [0, 0, 45, - 40, 0 :: real])"
    by (simp_all add: exampleState_def exampleMoved_def exampleActive_def)
  have ev: "resolveTargetIndex [0, 0, 45, - 40, 0] 2 = 3"
    by (simp add: resolveTargetIndex_def walkUp.simps walkDown.simps js_nth_def js_gt0_def js_lt0_def)
  from drop_resolution [OF h, of exampleDom] ev show ?thesis
    by (simp add: exampleState_def)
qed


section \<open>Drop resolution stays inside the arrays\<close>

lemma walkUp_bounds: "0 \<le> t \<Longrightarrow> 0 \<le> walkUp m t \<and> walkUp m t \<le> t"
proof (induction m t rule: walkUp.induct)
  case (1 m t)
  show ?case
  proof (cases "t > 0 \<and> js_gt0 (js_nth m (t - 1))")
    case True
    with "1.IH" have "0 \<le> walkUp m (t - 1) \<and> walkUp m (t - 1) \<le> t - 1" by simp
    moreover from True have "walkUp m t = walkUp m (t - 1)" by (subst walkUp.simps) simp
    ultimately show ?thesis by simp
  next
    case False
    then have "walkUp m t = t" by (subst walkUp.simps) auto
    with "1.prems" show ?thesis by simp
  qed
qed

lemma walkDown_bounds:
  "t \<le> int (length m) - 1 \<Longrightarrow> t \<le> walkDown m t \<and> walkDown m t \<le> int (length m) - 1"
proof (induction m t rule: walkDown.induct)
  case (1 m t)
  show ?case
  proof (cases "t < int (length m) - 1 \<and> js_lt0 (js_nth m (t + 1))")
    case True
    with "1.IH" have "t + 1 \<le> walkDown m (t + 1) \<and> walkDown m (t + 1) \<le> int (length m) - 1"
      by simp
    moreover from True have "walkDown m t = walkDown m (t + 1)" by (subst walkDown.simps) simp
    ultimately show ?thesis by simp
  next
    case False
    then have "walkDown m t = t" by (subst walkDown.simps) auto
    with "1.prems" show ?thesis by simp
  qed
qed

lemma walkUpReads_bounds:
  "t \<le> int (length m) \<Longrightarrow> i \<in> set (walkUpReads m t) \<Longrightarrow> 0 \<le> i \<and> i < int (length m)"
proof (induction m t rule: walkUpReads.induct)
  case (1 m t)
  from "1.prems"(2) have pos: "t > 0"
    by (subst (asm) walkUpReads.simps) (simp split: if_splits)
  from "1.prems"(2) pos
  have "i = t - 1 \<or> (js_gt0 (js_nth m (t - 1)) \<and> i \<in> set (walkUpReads m (t - 1)))"
    by (subst (asm) walkUpReads.simps) (simp split: if_splits)
  then show ?case
  proof
    assume "i = t - 1"
    with pos "1.prems"(1) show ?thesis by simp
  next
    assume a: "js_gt0 (js_nth m (t - 1)) \<and> i \<in> set (walkUpReads m (t - 1))"
    with pos "1.prems"(1) "1.IH" show ?thesis by simp
  qed
qed

lemma walkDownReads_bounds:
  "- 1 \<le> t \<Longrightarrow> i \<in> set (walkDownReads m t) \<Longrightarrow> 0 \<le> i \<and> i < int (length m)"
proof (induction m t rule: walkDownReads.induct)
  case (1 m t)
  from "1.prems"(2) have lt: "t < int (length m) - 1"
    by (subst (asm) walkDownReads.simps) (simp split: if_splits)
  from "1.prems"(2) lt
  have "i = t + 1 \<or> (js_lt0 (js_nth m (t + 1)) \<and> i \<in> set (walkDownReads m (t + 1)))"
    by (subst (asm) walkDownReads.simps) (simp split: if_splits)
  then show ?case
  proof
    assume "i = t + 1"
    with lt "1.prems"(1) show ?thesis by simp
  next
    assume a: "js_lt0 (js_nth m (t + 1)) \<and> i \<in> set (walkDownReads m (t + 1))"
    with lt "1.prems"(1) "1.IH" show ?thesis by simp
  qed
qed

lemma resolveTargetIndex_bounds:
  assumes "0 \<le> s" and "s < int (length m)"
  shows "0 \<le> resolveTargetIndex m s \<and> resolveTargetIndex m s \<le> int (length m) - 1"
proof -
  from assms(1) have up: "0 \<le> walkUp m s \<and> walkUp m s \<le> s" by (rule walkUp_bounds)
  from assms(2) have "s \<le> int (length m) - 1" by simp
  then have down: "s \<le> walkDown m s \<and> walkDown m s \<le> int (length m) - 1"
    by (rule walkDown_bounds)
  from up down assms show ?thesis
    by (auto simp: resolveTargetIndex_def Let_def)
qed

text \<open>
  Claim C10. For a non-empty movement sequence and a source index inside it, the
  resolved target index lies between \<open>0\<close> and \<open>length - 1\<close>, every read of
  \<open>movememtSeq\<close> made by the conditions of the two loops is at an index inside the
  array, and so is the read \<open>rowSeq[targetIndex]\<close>, the row sequence having the
  length of the movement sequence.
\<close>

theorem drop_resolution_in_bounds:
  assumes "m \<noteq> []" and "0 \<le> s" and "s < int (length m)" and "length r = length m"
  shows "0 \<le> resolveTargetIndex m s \<and> resolveTargetIndex m s \<le> int (length m) - 1 \<and>
         (\<forall>i \<in> set (resolveReads m s). 0 \<le> i \<and> i < int (length m) \<and> js_nth m i \<noteq> None) \<and>
         js_nth r (resolveTargetIndex m s) \<noteq> None"
proof -
  have b: "0 \<le> resolveTargetIndex m s \<and> resolveTargetIndex m s \<le> int (length m) - 1"
    using assms(2,3) by (rule resolveTargetIndex_bounds)
  have reads: "0 \<le> i \<and> i < int (length m)" if "i \<in> set (resolveReads m s)" for i
  proof -
    from that have "i \<in> set (walkUpReads m s) \<or> i \<in> set (walkDownReads m s)"
      by (auto simp: resolveReads_def split: if_splits)
    then show ?thesis
    proof
      assume "i \<in> set (walkUpReads m s)"
      with assms(3) show ?thesis using walkUpReads_bounds [of s m i] by simp
    next
      assume "i \<in> set (walkDownReads m s)"
      with assms(2) show ?thesis using walkDownReads_bounds [of s i m] by simp
    qed
  qed
  from b assms(4) have "js_nth r (resolveTargetIndex m s) \<noteq> None"
    by (simp add: js_nth_def)
  with b reads show ?thesis by (auto simp: js_nth_def)
qed

theorem drop_resolution_in_bounds_witness:
  "resolveTargetIndex [0, 0, 45, - 40, 0] 2 = 3 \<and>
   resolveReads [0, 0, 45, - 40, 0] 2 = [1, 3, 4] \<and>
   js_nth (rows exampleDom) (resolveTargetIndex [0, 0, 45, - 40, 0] 2) = Some (exampleRow 3)"
proof -
  have ev: "resolveTargetIndex [0, 0, 45, - 40, 0] 2 = 3"
    by (simp add: resolveTargetIndex_def walkUp.simps walkDown.simps js_nth_def js_gt0_def js_lt0_def)
  have rd: "resolveReads [0, 0, 45, - 40, 0] 2 = [1, 3, 4]"
    by (simp add: resolveReads_def walkUp.simps walkUpReads.simps walkDownReads.simps
        js_nth_def js_gt0_def js_lt0_def)
  have "js_nth (rows exampleDom) (resolveTargetIndex [0, 0, 45, - 40, 0] 2) \<noteq> None"
    using drop_resolution_in_bounds [of "[0, 0, 45, - 40, 0]" 2 "rows exampleDom"]
    by (simp add: exampleDom_def)
  with ev rd show ?thesis by (simp add: js_nth_def exampleDom_def)
qed


section \<open>The default activation gate and a vertical drag\<close>

text \<open>
  Claim C9. The default gate answers true exactly when \<open>|dy| > 10\<close> and
  \<open>|dy / dx| > 2\<close>, the quotient taken as JavaScript takes it. For \<open>dx = 0\<close> and
  \<open>|dy| > 10\<close> the quotient is an infinity (of either sign, its absolute value is
  \<open>+Infinity\<close>) and the gate answers true.
\<close>

theorem default_activation_gate:
  "defaultOnBeforeDragActivate evt (dx, dy) c = (\<bar>dy\<bar> > 10 \<and> js_gt (js_abs (js_div dy dx)) 2) \<and>
   (dx \<noteq> 0 \<longrightarrow> defaultOnBeforeDragActivate evt (dx, dy) c = (\<bar>dy\<bar> > 10 \<and> \<bar>dy / dx\<bar> > 2)) \<and>
   (dx = 0 \<and> \<bar>dy\<bar> > 10 \<longrightarrow>
      js_abs (js_div dy dx) = PosInfinity \<and> defaultOnBeforeDragActivate evt (dx, dy) c)"
  by (auto simp: defaultOnBeforeDragActivate_def js_div_def)

theorem default_activation_gate_witness:
  "js_abs (js_div (- 11) 0) = PosInfinity \<and>
   defaultOnBeforeDragActivate (examplePointer 100 89) (0, - 11) exampleArmed \<and>
   \<not> defaultOnBeforeDragActivate (examplePointer 100 110) (0, 10) exampleArmed \<and>
   \<not> defaultOnBeforeDragActivate (examplePointer 106 111) (6, 11) exampleArmed"
  using default_activation_gate [of "examplePointer 100 89" 0 "- 11" exampleArmed]
    default_activation_gate [of "examplePointer 100 110" 0 10 exampleArmed]
    default_activation_gate [of "examplePointer 106 111" 6 11 exampleArmed]
  by (simp add: js_div_def)


section \<open>No run of the controller raises a TypeError\<close>

text \<open>
  Every handler keeps the contexts well formed, so the branches of \<open>move\<close> and
  \<open>drop\<close> that answer \<open>TypeError\<close> are never taken on a run from the initial state.
\<close>

lemma length_pushBottoms: "length (pushBottoms fl bottom heightSeq) = length heightSeq"
  by (induction heightSeq arbitrary: bottom) auto

lemma move_wellFormed:
  assumes "ctx st = Some c" and "activated c"
    and "sourceIndex c = Some s" and "sourceHeight c = Some h"
    and "rowSeq c = Some r" and "bottomSeq c = Some b" and "length r = length b"
  shows "\<exists>st'. move fl dy st = Inr st' \<and> wellFormed st'"
proof -
  let ?new = "newMovementSeq fl s h (case sourceMidPoint c of None \<Rightarrow> NaN | Some mid \<Rightarrow> mid) b dy"
  have "0 + int (length ?new) \<le> int (length r)"
    using assms(7) by (simp add: length_newMovementSeq)
  then obtain sty where
    am: "applyMovement (Some r) (movememtSeq c) s 0 ?new (styles st) = Inr sty"
    using applyMovement_ok [of 0 ?new r "movememtSeq c" s "styles st"] by auto
  with assms have "move fl dy st =
      Inr (st\<lparr>ctx := Some (c\<lparr>movememtSeq := Some ?new\<rparr>), styles := sty,
               effects := effects st @ [OnDragMove (c\<lparr>movememtSeq := Some ?new\<rparr>)]\<rparr>)"
    by (simp add: move_def Let_def del: applyMovement.simps)
  moreover have "wellFormed (st\<lparr>ctx := Some (c\<lparr>movememtSeq := Some ?new\<rparr>), styles := sty,
               effects := effects st @ [OnDragMove (c\<lparr>movememtSeq := Some ?new\<rparr>)]\<rparr>)"
    using assms by (simp add: wellFormed_def length_newMovementSeq)
  ultimately show ?thesis by simp
qed

lemma mousemove_wellFormed:
  assumes "wellFormed st"
  shows "\<exists>st'. mousemove fl opts d evt st = Inr st' \<and> wellFormed st'"
proof (cases "ctx st")
  case None
  with assms show ?thesis by (simp add: mousemove_def)
next
  case (Some c)
  obtain startX startY where sp: "startPosition c = (startX, startY)"
    by (cases "startPosition c")
  let ?dx = "clientX evt - startX" and ?dy = "clientY evt - startY"
  show ?thesis
  proof (cases "activated c")
    case True
    with assms Some obtain s h r b m where f: "sourceIndex c = Some s" "sourceHeight c = Some h"
      "rowSeq c = Some r" "bottomSeq c = Some b" "length r = length b"
      by (auto simp: wellFormed_def split: option.splits)
    have "ctx (st\<lparr>effects := effects st @ [PreventDefault]\<rparr>) = Some c" using Some by simp
    from move_wellFormed [OF this True f, of fl ?dy]
    show ?thesis using Some sp True by (simp add: mousemove_def Let_def)
  next
    case False
    show ?thesis
    proof (cases "onBeforeDragActivate opts evt (?dx, ?dy) c")
      case g: False
      with Some sp False assms show ?thesis by (simp add: mousemove_def Let_def)
    next
      case g: True
      define c' where "c' = c\<lparr> activated := True,
                      sourceIndex := Some (indexOf (rows d) (source c)),
                      sourceHeight := Some (rowHeight d (source c)),
                      sourceMidPoint :=
                        Some (js_add fl
                                (case js_nth (pushBottoms fl (Finite 0) (map (rowHeight d) (rows d)))
                                        (indexOf (rows d) (source c)) of
                                   None \<Rightarrow> NaN
                                 | Some bottom \<Rightarrow> bottom)
                                (fl (rowHeight d (source c) / 2))),
                      rowSeq := Some (rows d),
                      bottomSeq := Some (pushBottoms fl (Finite 0) (map (rowHeight d) (rows d))) \<rparr>"
      define st1 where "st1 = st\<lparr>ctx := Some c', effects := effects st @ [OnDragActivate c']\<rparr>"
      have act: "activate fl d st = Inr st1"
        using Some by (simp add: activate_def Let_def c'_def st1_def)
      let ?st2 = "st1\<lparr>effects := effects st1 @ [PreventDefault]\<rparr>"
      have c2: "ctx ?st2 = Some c'" by (simp add: st1_def)
      have f: "activated c'" "sourceIndex c' = Some (indexOf (rows d) (source c))"
        "sourceHeight c' = Some (rowHeight d (source c))" "rowSeq c' = Some (rows d)"
        "bottomSeq c' = Some (pushBottoms fl (Finite 0) (map (rowHeight d) (rows d)))"
        "length (rows d) = length (pushBottoms fl (Finite 0) (map (rowHeight d) (rows d)))"
        by (simp_all add: c'_def length_pushBottoms)
      from move_wellFormed [OF c2 f, of fl ?dy]
      obtain st' where mv: "move fl ?dy ?st2 = Inr st'" and wf: "wellFormed st'" by blast
      have "mousemove fl opts d evt st = move fl ?dy ?st2"
        using Some sp False g act f(1) by (simp add: mousemove_def Let_def st1_def)
      with mv wf show ?thesis by simp
    qed
  qed
qed

lemma mouseup_wellFormed:
  assumes "wellFormed st"
  shows "\<exists>st'. mouseup d st = Inr st' \<and> wellFormed st'"
proof (cases "ctx st")
  case None
  with assms show ?thesis by (simp add: mouseup_def)
next
  case (Some c)
  show ?thesis
  proof (cases "activated c")
    case False
    with Some show ?thesis by (simp add: mouseup_def drop_dnd_def wellFormed_def)
  next
    case True
    with assms Some obtain s r m where "sourceIndex c = Some s" "rowSeq c = Some r"
      "movememtSeq c = Some m"
      by (auto simp: wellFormed_def split: option.splits)
    with Some True show ?thesis
      by (simp add: mouseup_def drop_dnd_def wellFormed_def Let_def)
  qed
qed

lemma mousedown_wellFormed: "wellFormed st \<Longrightarrow> wellFormed (mousedown opts evt st)"
  by (auto simp: mousedown_def start_def wellFormed_def Let_def split: option.splits)

lemma dispatch_wellFormed:
  assumes "wellFormed st"
  shows "\<exists>st'. dispatch fl opts d a st = Inr st' \<and> wellFormed st'"
proof (cases a)
  case (MouseDown evt)
  with assms mousedown_wellFormed [of st opts evt] show ?thesis by simp
next
  case (MouseMove evt)
  with assms mousemove_wellFormed [of st fl opts d evt] show ?thesis by simp
next
  case MouseUp
  with assms mouseup_wellFormed [of st d] show ?thesis by simp
next
  case Destroy
  with assms show ?thesis by (simp add: destroy_def wellFormed_def)
qed

lemma run_wellFormed:
  "wellFormed st \<Longrightarrow> \<exists>st'. run fl opts as st = Inr st' \<and> wellFormed st'"
proof (induction as arbitrary: st)
  case Nil
  then show ?case by simp
next
  case (Cons x as)
  obtain d a where x: "x = (d, a)" by (cases x)
  from dispatch_wellFormed [OF Cons.prems, of fl opts d a]
  obtain st1 where st1: "dispatch fl opts d a st = Inr st1" "wellFormed st1" by blast
  from Cons.IH [OF st1(2)] st1(1) x show ?case by simp
qed

lemma run_raises_no_error:
  "\<exists>st'. run fl opts as (tableDndSortable sty) = Inr st' \<and> wellFormed st'"
proof -
  have "wellFormed (tableDndSortable sty)"
    by (simp add: wellFormed_def tableDndSortable_def setupListeners_def)
  then show ?thesis by (rule run_wellFormed)
qed


section \<open>What each handler does to the calls made\<close>

lemma mousedown_not_accepted: "\<not> accepted opts evt \<Longrightarrow> mousedown opts evt st = st"
  by (auto simp: accepted_def mousedown_def split: option.splits)

lemma mousedown_effects:
  "filter isOnDrop (effects (mousedown opts evt st)) = filter isOnDrop (effects st) \<and>
   filter isOnDragActivate (effects (mousedown opts evt st)) = filter isOnDragActivate (effects st)"
  by (auto simp: mousedown_def start_def Let_def split: option.splits)

lemma mousedown_ctx:
  "ctx (mousedown opts evt st) = Some c \<Longrightarrow> ctx st = Some c \<or> \<not> activated c"
  by (auto simp: mousedown_def start_def Let_def split: option.splits if_splits)

lemma mousemove_no_drop:
  "mousemove fl opts d evt st = Inr st' \<Longrightarrow>
   filter isOnDrop (effects st') = filter isOnDrop (effects st)"
  by (auto simp: mousemove_def activate_def move_def Let_def
      split: option.splits sum.splits if_splits prod.splits)

lemma mouseup_unactivated:
  "ctx st = Some c \<Longrightarrow> \<not> activated c \<Longrightarrow> mouseup d st = Inr (st\<lparr>ctx := None\<rparr>)"
  by (simp add: mouseup_def drop_dnd_def)

lemma mouseup_drop:
  "mouseup d st = Inr st' \<Longrightarrow> filter isOnDrop (effects st') \<noteq> filter isOnDrop (effects st) \<Longrightarrow>
   \<exists>c. ctx st = Some c \<and> activated c"
  by (auto simp: mouseup_def drop_dnd_def Let_def split: option.splits if_splits)

lemma dispatch_drop:
  assumes "dispatch fl opts d a st = Inr st'"
    and "filter isOnDrop (effects st') \<noteq> filter isOnDrop (effects st)"
  shows "a = MouseUp \<and> mouseupListener st \<and> (\<exists>c. ctx st = Some c \<and> activated c)"
proof (cases a)
  case (MouseDown evt)
  with assms mousedown_effects [of opts evt st] show ?thesis by (auto split: if_splits)
next
  case (MouseMove evt)
  with assms mousemove_no_drop [of fl opts d evt st st'] show ?thesis by (auto split: if_splits)
next
  case MouseUp
  with assms mouseup_drop [of d st st'] show ?thesis by (auto split: if_splits)
next
  case Destroy
  with assms show ?thesis by (auto simp: destroy_def)
qed

lemma dispatch_unactivated:
  assumes "unactivated st" and "gateRefuses opts a"
  shows "\<exists>st'. dispatch fl opts d a st = Inr st' \<and> unactivated st' \<and>
           filter isOnDrop (effects st') = filter isOnDrop (effects st) \<and>
           filter isOnDragActivate (effects st') = filter isOnDragActivate (effects st)"
proof (cases a)
  case (MouseDown evt)
  have "unactivated (mousedown opts evt st)"
    using assms(1) mousedown_ctx [of opts evt st]
    by (auto simp: unactivated_def split: option.splits)
  with MouseDown mousedown_effects [of opts evt st] assms(1) show ?thesis by simp
next
  case (MouseMove evt)
  from assms(2) MouseMove have g: "\<And>delta c. \<not> onBeforeDragActivate opts evt delta c"
    by (auto simp: gateRefuses_def)
  from assms(1) have "mousemove fl opts d evt st = Inr st"
    by (auto simp: mousemove_def unactivated_def g Let_def split: option.splits prod.splits)
  with MouseMove assms(1) show ?thesis by simp
next
  case MouseUp
  from assms(1) have "mouseup d st = Inr st \<or> mouseup d st = Inr (st\<lparr>ctx := None\<rparr>)"
    by (auto simp: mouseup_def drop_dnd_def unactivated_def split: option.splits)
  with MouseUp assms(1) show ?thesis by (auto simp: unactivated_def)
next
  case Destroy
  with assms(1) show ?thesis by (simp add: destroy_def unactivated_def)
qed

lemma run_unactivated:
  "unactivated st \<Longrightarrow> \<forall>(d, a) \<in> set as. gateRefuses opts a \<Longrightarrow>
   \<exists>st'. run fl opts as st = Inr st' \<and> unactivated st' \<and>
     filter isOnDrop (effects st') = filter isOnDrop (effects st) \<and>
     filter isOnDragActivate (effects st') = filter isOnDragActivate (effects st)"
proof (induction as arbitrary: st)
  case Nil
  then show ?case by simp
next
  case (Cons x as)
  obtain d a where x: "x = (d, a)" by (cases x)
  with Cons.prems have g: "gateRefuses opts a" and rest: "\<forall>(d, a) \<in> set as. gateRefuses opts a"
    by simp_all
  from dispatch_unactivated [OF Cons.prems(1) g, of fl d]
  obtain st1 where st1: "dispatch fl opts d a st = Inr st1" "unactivated st1"
    "filter isOnDrop (effects st1) = filter isOnDrop (effects st)"
    "filter isOnDragActivate (effects st1) = filter isOnDragActivate (effects st)"
    by blast
  from Cons.IH [OF st1(2) rest] st1 x show ?case by simp
qed


section \<open>The five-row table, step by step\<close>

lemma example_climb: "climb exampleTable exampleCell = Some (exampleRow 2)"
  by (simp add: exampleTable_def exampleCell_def exampleRow_def)

lemma example_press:
  "mousedown opts (examplePointer 100 100) st =
     (if onBeforeDragStart opts (examplePointer 100 100)
      then st\<lparr>ctx := Some exampleArmed, effects := effects st @ [OnDragStart exampleArmed]\<rparr>
      else st)"
  by (simp add: mousedown_def examplePointer_def example_climb start_def exampleArmed_def
      exampleRow_def Let_def)

lemma example_setup: "tableDndSortable noStyle = exampleState None"
  by (simp add: tableDndSortable_def setupListeners_def exampleState_def)

lemma example_drop:
  "mouseup exampleDom (exampleState (Some exampleMoved)) =
     Inr ((exampleState None)
       \<lparr>styles := clearStyles (rows exampleDom) noStyle,
        effects := [OnDrop (exampleMoved\<lparr>targetIndex := Some 3, target := Some (exampleRow 3)\<rparr>)]\<rparr>)"
  by (simp add: exampleState_def mouseup_def drop_dnd_def exampleMoved_def exampleActive_def
      exampleArmed_def exampleDom_def resolveTargetIndex_def walkUp.simps walkDown.simps
      js_nth_def js_gt0_def js_lt0_def Let_def)

lemma example_activate:
  assumes "exactOnIntegers fl" and "ctx st = Some exampleArmed"
  shows "activate fl exampleDom st =
     Inr (st\<lparr>ctx := Some exampleActive, effects := effects st @ [OnDragActivate exampleActive]\<rparr>)"
  using assms(2)
  by (simp add: activate_def exampleArmed_def exampleActive_def exampleDom_def indexOf_def
      exampleRow_def js_nth_def Let_def fl_numeral [OF assms(1)])

lemma example_newMovementSeq:
  assumes "exactOnIntegers fl"
  shows "newMovementSeq fl 2 40 (Finite 140)
           [Finite 40, Finite 80, Finite 120, Finite 160, Finite 200] 45 = [0, 0, 45, - 40, 0]"
  by (simp add: newMovementSeq_def js_map_def rowMovement_def matchDirection_def
      overMidPoint_def js_sub_def fl_numeral [OF assms] fl_neg_numeral [OF assms]
      fl_zero [OF assms])

lemma example_move:
  assumes "exactOnIntegers fl" and "ctx st = Some exampleActive"
  shows "\<exists>sty. move fl 45 st =
     Inr (st\<lparr>ctx := Some exampleMoved, styles := sty,
             effects := effects st @ [OnDragMove exampleMoved]\<rparr>)"
proof -
  have "0 + int (length [0, 0, 45, - 40, 0 :: real]) \<le> int (length (rows exampleDom))"
    by (simp add: exampleDom_def)
  then obtain sty where
    am: "applyMovement (Some (rows exampleDom)) None 2 0 [0, 0, 45, - 40, 0] (styles st) = Inr sty"
    using applyMovement_ok [of 0 "[0, 0, 45, - 40, 0]" "rows exampleDom" None 2 "styles st"]
    by auto
  with assms(2) have "move fl 45 st =
     Inr (st\<lparr>ctx := Some exampleMoved, styles := sty,
             effects := effects st @ [OnDragMove exampleMoved]\<rparr>)"
    by (simp add: move_def exampleActive_def exampleArmed_def
        example_newMovementSeq [OF assms(1)] exampleMoved_def Let_def
        del: applyMovement.simps)
  then show ?thesis by blast
qed

lemma example_mousemove:
  assumes "exactOnIntegers fl" and "ctx st = Some exampleArmed"
  shows "\<exists>st'. mousemove fl defaultOptions exampleDom (examplePointer 100 145) st = Inr st' \<and>
           ctx st' = Some exampleMoved \<and>
           mousedownListener st' = mousedownListener st \<and>
           mousemoveListener st' = mousemoveListener st \<and>
           mouseupListener st' = mouseupListener st"
proof -
  let ?st1 = "st\<lparr>ctx := Some exampleActive, effects := effects st @ [OnDragActivate exampleActive]\<rparr>"
  let ?st2 = "?st1\<lparr>effects := effects ?st1 @ [PreventDefault]\<rparr>"
  have gate: "onBeforeDragActivate defaultOptions (examplePointer 100 145) (0, 45) exampleArmed"
    by (simp add: defaultOptions_def defaultOnBeforeDragActivate_def js_div_def)
  have "ctx ?st2 = Some exampleActive" by simp
  from example_move [OF assms(1) this] obtain sty where
    mv: "move fl 45 ?st2 = Inr (?st2\<lparr>ctx := Some exampleMoved, styles := sty,
             effects := effects ?st2 @ [OnDragMove exampleMoved]\<rparr>)"
    by blast
  have na: "\<not> activated exampleArmed" "startPosition exampleArmed = (100, 100)"
    "activated exampleActive"
    by (simp_all add: exampleArmed_def exampleActive_def)
  have "mousemove fl defaultOptions exampleDom (examplePointer 100 145) st = move fl 45 ?st2"
    using assms(2) gate na example_activate [OF assms]
    by (simp add: mousemove_def examplePointer_def Let_def)
  with mv show ?thesis by simp
qed


section \<open>A release without activation\<close>

text \<open>
  Claim C7. When the context exists and is not activated, the pointer-up handler clears
  it and calls nothing. Whenever an action adds a call of \<open>onDrop\<close>, the action is a
  pointer-up and the context was activated. And along any run that starts without an
  activated context and in which the activation gate refuses every move, no error
  occurs, no context is ever activated and no call of \<open>onDrop\<close> is added.
\<close>

theorem drop_only_when_activated:
  "(ctx st = Some c \<and> \<not> activated c \<longrightarrow> mouseup d st = Inr (st\<lparr>ctx := None\<rparr>)) \<and>
   (dispatch fl opts d a st = Inr st' \<and>
      filter isOnDrop (effects st') \<noteq> filter isOnDrop (effects st) \<longrightarrow>
      a = MouseUp \<and> (\<exists>c. ctx st = Some c \<and> activated c)) \<and>
   (unactivated st \<and> (\<forall>(d, a) \<in> set as. gateRefuses opts a) \<longrightarrow>
      (\<exists>st''. run fl opts as st = Inr st'' \<and> unactivated st'' \<and>
         filter isOnDrop (effects st'') = filter isOnDrop (effects st)))"
proof (intro conjI impI)
  assume "ctx st = Some c \<and> \<not> activated c"
  then show "mouseup d st = Inr (st\<lparr>ctx := None\<rparr>)"
    by (simp add: mouseup_unactivated)
next
  assume "dispatch fl opts d a st = Inr st' \<and>
      filter isOnDrop (effects st') \<noteq> filter isOnDrop (effects st)"
  then show "a = MouseUp" and "\<exists>c. ctx st = Some c \<and> activated c"
    using dispatch_drop [of fl opts d a st st'] by simp_all
next
  assume "unactivated st \<and> (\<forall>(d, a) \<in> set as. gateRefuses opts a)"
  then show "\<exists>st''. run fl opts as st = Inr st'' \<and> unactivated st'' \<and>
         filter isOnDrop (effects st'') = filter isOnDrop (effects st)"
    using run_unactivated [of st as opts fl] by blast
qed

theorem drop_only_when_activated_witness:
  "mouseup exampleDom (exampleState (Some exampleArmed)) =
     Inr ((exampleState (Some exampleArmed))\<lparr>ctx := None\<rparr>) \<and>
   (\<exists>st'. dispatch exactRounding defaultOptions exampleDom MouseUp
            (exampleState (Some exampleMoved)) = Inr st' \<and>
      filter isOnDrop (effects st') \<noteq> filter isOnDrop (effects (exampleState (Some exampleMoved))) \<and>
      activated exampleMoved) \<and>
   (\<exists>st''. run exactRounding neverActivate
              [(exampleDom, MouseDown (examplePointer 100 100)),
               (exampleDom, MouseMove (examplePointer 100 145)),
               (exampleDom, MouseUp)] (exampleState None) = Inr st'' \<and>
            unactivated st'' \<and> filter isOnDrop (effects st'') = [])"
proof -
  have a: "ctx (exampleState (Some exampleArmed)) = Some exampleArmed \<and> \<not> activated exampleArmed"
    by (simp add: exampleState_def exampleArmed_def)
  note t1 = drop_only_when_activated
    [where st = "exampleState (Some exampleArmed)" and c = exampleArmed and d = exampleDom]
  from t1 a have one: "mouseup exampleDom (exampleState (Some exampleArmed)) =
     Inr ((exampleState (Some exampleArmed))\<lparr>ctx := None\<rparr>)"
    by blast
  let ?st' = "(exampleState None)
       \<lparr>styles := clearStyles (rows exampleDom) noStyle,
        effects := [OnDrop (exampleMoved\<lparr>targetIndex := Some 3, target := Some (exampleRow 3)\<rparr>)]\<rparr>"
  have b: "dispatch exactRounding defaultOptions exampleDom MouseUp
             (exampleState (Some exampleMoved)) = Inr ?st'"
    using example_drop by (simp add: exampleState_def)
  have b': "filter isOnDrop (effects ?st') \<noteq> filter isOnDrop (effects (exampleState (Some exampleMoved)))"
    by (simp add: exampleState_def)
  note t2 = drop_only_when_activated
    [where st = "exampleState (Some exampleMoved)" and opts = defaultOptions and d = exampleDom
      and fl = exactRounding
      and a = MouseUp and st' = ?st']
  from t2 b b' have "\<exists>c. ctx (exampleState (Some exampleMoved)) = Some c \<and> activated c"
    by blast
  then have "activated exampleMoved" by (simp add: exampleState_def)
  with b b' have two: "\<exists>st'. dispatch exactRounding defaultOptions exampleDom MouseUp
            (exampleState (Some exampleMoved)) = Inr st' \<and>
      filter isOnDrop (effects st') \<noteq> filter isOnDrop (effects (exampleState (Some exampleMoved))) \<and>
      activated exampleMoved"
    by blast
  have c: "unactivated (exampleState None) \<and>
      (\<forall>(d, a) \<in> set [(exampleDom, MouseDown (examplePointer 100 100)),
               (exampleDom, MouseMove (examplePointer 100 145)),
               (exampleDom, MouseUp)]. gateRefuses neverActivate a)"
    by (simp add: unactivated_def exampleState_def gateRefuses_def neverActivate_def)
  note t3 = drop_only_when_activated
    [where st = "exampleState None" and opts = neverActivate and fl = exactRounding
      and as = "[(exampleDom, MouseDown (examplePointer 100 100)),
               (exampleDom, MouseMove (examplePointer 100 145)),
               (exampleDom, MouseUp)]"]
  from t3 c have "\<exists>st''. run exactRounding neverActivate
              [(exampleDom, MouseDown (examplePointer 100 100)),
               (exampleDom, MouseMove (examplePointer 100 145)),
               (exampleDom, MouseUp)] (exampleState None) = Inr st'' \<and>
            unactivated st'' \<and>
            filter isOnDrop (effects st'') = filter isOnDrop (effects (exampleState None))"
    by blast
  then have three: "\<exists>st''. run exactRounding neverActivate
              [(exampleDom, MouseDown (examplePointer 100 100)),
               (exampleDom, MouseMove (examplePointer 100 145)),
               (exampleDom, MouseUp)] (exampleState None) = Inr st'' \<and>
            unactivated st'' \<and> filter isOnDrop (effects st'') = []"
    by (simp add: exampleState_def)
  from one two three show ?thesis by blast
qed


section \<open>A press the start gate refuses\<close>

lemma dispatch_idle:
  assumes "ctx st = None" and "\<forall>e. a = MouseDown e \<longrightarrow> \<not> accepted opts e"
  shows "\<exists>st'. dispatch fl opts d a st = Inr st' \<and> ctx st' = None \<and>
           effects st' = effects st \<and> styles st' = styles st"
proof (cases a)
  case (MouseDown e)
  with assms(2) have "mousedown opts e st = st" by (simp add: mousedown_not_accepted)
  with MouseDown assms(1) show ?thesis by simp
next
  case (MouseMove e)
  with assms(1) show ?thesis by (simp add: mousemove_def)
next
  case MouseUp
  with assms(1) show ?thesis by (simp add: mouseup_def)
next
  case Destroy
  with assms(1) show ?thesis by (simp add: destroy_def)
qed

lemma run_idle:
  "ctx st = None \<Longrightarrow> \<forall>(d, a) \<in> set as. \<forall>e. a = MouseDown e \<longrightarrow> \<not> accepted opts e \<Longrightarrow>
   \<exists>st'. run fl opts as st = Inr st' \<and> ctx st' = None \<and>
           effects st' = effects st \<and> styles st' = styles st"
proof (induction as arbitrary: st)
  case Nil
  then show ?case by simp
next
  case (Cons x as)
  obtain d a where x: "x = (d, a)" by (cases x)
  with Cons.prems have g: "\<forall>e. a = MouseDown e \<longrightarrow> \<not> accepted opts e"
    and rest: "\<forall>(d, a) \<in> set as. \<forall>e. a = MouseDown e \<longrightarrow> \<not> accepted opts e"
    by simp_all
  from dispatch_idle [OF Cons.prems(1) g, of fl d]
  obtain st1 where st1: "dispatch fl opts d a st = Inr st1" "ctx st1 = None"
    "effects st1 = effects st" "styles st1 = styles st"
    by blast
  from Cons.IH [OF st1(2) rest] st1 x show ?case by simp
qed

text \<open>
  Claim C8. From a state without a context, a press that \<open>onBeforeDragStart\<close> refuses,
  followed by any moves, releases and further presses that are not accepted, creates no
  context and calls no handler at all, \<open>onDragActivate\<close> and \<open>onDrop\<close> included: the
  run ends without error, with no context, and with the effects and the styles it
  started with.
\<close>

theorem refused_press_starts_nothing:
  assumes "ctx st = None" and "\<not> onBeforeDragStart opts evt"
    and "\<forall>(d, a) \<in> set rest. \<forall>e. a = MouseDown e \<longrightarrow> \<not> accepted opts e"
  shows "\<exists>st'. run fl opts ((d0, MouseDown evt) # rest) st = Inr st' \<and> ctx st' = None \<and>
           effects st' = effects st \<and> styles st' = styles st"
proof -
  from assms(2) have "\<not> accepted opts evt" by (simp add: accepted_def)
  with assms(3)
  have "\<forall>(d, a) \<in> set ((d0, MouseDown evt) # rest). \<forall>e. a = MouseDown e \<longrightarrow> \<not> accepted opts e"
    by simp
  with assms(1) show ?thesis by (rule run_idle)
qed

theorem refused_press_starts_nothing_witness:
  "\<exists>st'. run exactRounding neverStart
      [(exampleDom, MouseDown (examplePointer 100 100)),
       (exampleDom, MouseMove (examplePointer 100 145)),
       (exampleDom, MouseUp)] (tableDndSortable noStyle) = Inr st' \<and>
     ctx st' = None \<and> effects st' = [] \<and> styles st' = noStyle"
proof -
  have a: "ctx (tableDndSortable noStyle) = None"
    by (simp add: example_setup exampleState_def)
  have b: "\<not> onBeforeDragStart neverStart (examplePointer 100 100)"
    by (simp add: neverStart_def)
  have c: "\<forall>(d, a) \<in> set [(exampleDom, MouseMove (examplePointer 100 145)), (exampleDom, MouseUp)].
      \<forall>e. a = MouseDown e \<longrightarrow> \<not> accepted neverStart e"
    by simp
  from refused_press_starts_nothing [OF a b c, of exactRounding exampleDom] show ?thesis
    by (simp add: example_setup exampleState_def)
qed


section \<open>Teardown\<close>

lemma run_destroyed: "run fl opts as (destroy st) = Inr (destroy st)"
proof (induction as)
  case Nil
  show ?case by simp
next
  case (Cons x as)
  obtain d a where x: "x = (d, a)" by (cases x)
  have "dispatch fl opts d a (destroy st) = Inr (destroy st)"
    by (cases a) (simp_all add: destroy_def)
  with Cons x show ?case by simp
qed

text \<open>
  Claim C4, as the code has it. \<open>destroy\<close> detaches the three listeners and changes
  nothing else: the context, the styles and the calls made are as before. After it no
  action reaches a handler, so that whatever follows, a pointer-up included, leaves the
  state as \<open>destroy\<close> left it and calls neither \<open>onDrop\<close> nor any other handler.
\<close>

theorem destroy_detaches_listeners:
  "\<not> mousedownListener (destroy st) \<and> \<not> mousemoveListener (destroy st) \<and>
   \<not> mouseupListener (destroy st) \<and>
   ctx (destroy st) = ctx st \<and> styles (destroy st) = styles st \<and>
   effects (destroy st) = effects st \<and>
   run fl opts as (destroy st) = Inr (destroy st)"
  using run_destroyed [of fl opts as st] by (simp add: destroy_def)

text \<open>
  Claim C4 as stated also has \<open>destroy\<close> clear the context. On the five-row table, a
  press on the third row, a move by 45 pixels and then \<open>destroy\<close> leave the activated
  context, with its movement sequence, in place.
\<close>

theorem destroy_keeps_context:
  "(case run exactRounding defaultOptions
           [(exampleDom, MouseDown (examplePointer 100 100)),
            (exampleDom, MouseMove (examplePointer 100 145)),
            (exampleDom, Destroy)] (tableDndSortable noStyle) of
      Inl e \<Rightarrow> None
    | Inr st \<Rightarrow> ctx st) = Some exampleMoved"
proof -
  let ?st1 = "(exampleState None)\<lparr>ctx := Some exampleArmed, effects := [OnDragStart exampleArmed]\<rparr>"
  have down: "dispatch exactRounding defaultOptions exampleDom (MouseDown (examplePointer 100 100))
      (tableDndSortable noStyle) = Inr ?st1"
    by (simp add: example_setup example_press) (simp add: exampleState_def defaultOptions_def)
  have "ctx ?st1 = Some exampleArmed" by simp
  from example_mousemove [OF exactOnIntegers_exactRounding this] obtain st2 where
    mv: "mousemove exactRounding defaultOptions exampleDom (examplePointer 100 145) ?st1 = Inr st2"
    and st2: "ctx st2 = Some exampleMoved" "mousemoveListener st2 = mousemoveListener ?st1"
    by blast
  have "mousemoveListener ?st1" by (simp add: exampleState_def)
  with mv have move: "dispatch exactRounding defaultOptions exampleDom
      (MouseMove (examplePointer 100 145)) ?st1 = Inr st2"
    by simp
  have "run exactRounding defaultOptions
           [(exampleDom, MouseDown (examplePointer 100 100)),
            (exampleDom, MouseMove (examplePointer 100 145)),
            (exampleDom, Destroy)] (tableDndSortable noStyle) = Inr (destroy st2)"
    using down move by simp
  with st2 show ?thesis by (simp add: destroy_def)
qed


section \<open>The rounding of the doubles has the properties asked\<close>

lemma roundEven_of_int: "roundEven (real_of_int k) = k"
  by (simp add: roundEven_def)

lemma roundEven_numeral: "roundEven (numeral n) = numeral n"
  using roundEven_of_int [of "numeral n"] by simp

lemma roundEven_bounds: "\<lfloor>r\<rfloor> \<le> roundEven r \<and> roundEven r \<le> \<lfloor>r\<rfloor> + 1"
  by (simp add: roundEven_def Let_def)

lemma roundEven_mono:
  assumes "r \<le> r'"
  shows "roundEven r \<le> roundEven r'"
proof (cases "\<lfloor>r\<rfloor> = \<lfloor>r'\<rfloor>")
  case True
  with assms have "r - real_of_int \<lfloor>r\<rfloor> \<le> r' - real_of_int \<lfloor>r'\<rfloor>" by simp
  with True show ?thesis by (auto simp: roundEven_def Let_def)
next
  case False
  with assms have "\<lfloor>r\<rfloor> < \<lfloor>r'\<rfloor>" using floor_mono [of r r'] by linarith
  with roundEven_bounds [of r] roundEven_bounds [of r'] show ?thesis by linarith
qed

lemma roundEven_le_of_int:
  assumes "r \<le> real_of_int k"
  shows "roundEven r \<le> k"
  using roundEven_mono [OF assms] by (simp add: roundEven_of_int)

lemma roundEven_ge_of_int:
  assumes "real_of_int k \<le> r"
  shows "k \<le> roundEven r"
  using roundEven_mono [OF assms] by (simp add: roundEven_of_int)

lemma floor_log2_bounds:
  assumes "0 < x"
  shows "2 powr real_of_int \<lfloor>log 2 x\<rfloor> \<le> x \<and> x < 2 powr (real_of_int \<lfloor>log 2 x\<rfloor> + 1)"
  using floor_log_eq_powr_iff [of x 2 "\<lfloor>log 2 x\<rfloor>"] assms by simp

lemma floor_log2_mono:
  assumes "0 < x" and "x \<le> y"
  shows "\<lfloor>log 2 x\<rfloor> \<le> \<lfloor>log 2 y\<rfloor>"
  using assms by (intro floor_mono) simp

lemma binary64Exponent_mono:
  "0 < x \<Longrightarrow> x \<le> y \<Longrightarrow> binary64Exponent x \<le> binary64Exponent y"
  using floor_log2_mono [of x y] by (simp add: binary64Exponent_def)

text \<open>The quotient by the quantum stays below \<open>2^53\<close>, and is at least \<open>2^52\<close> for a normal number.\<close>

lemma quotient_upper:
  assumes "0 < x"
  shows "x / 2 powr real_of_int (binary64Exponent x) \<le> 2 ^ 53"
proof -
  let ?E = "\<lfloor>log 2 x\<rfloor>" and ?e = "binary64Exponent x"
  have "?E - 52 \<le> ?e" by (simp add: binary64Exponent_def)
  then have "real_of_int ?E + 1 \<le> real_of_int ?e + 53" by linarith
  then have "2 powr (real_of_int ?E + 1) \<le> 2 powr (real_of_int ?e + 53)" by simp
  with floor_log2_bounds [OF assms] have "x \<le> 2 powr (real_of_int ?e + 53)" by linarith
  also have "\<dots> = 2 powr real_of_int ?e * 2 ^ 53" by (simp add: powr_add)
  finally show ?thesis by (simp add: divide_le_eq mult.commute)
qed

lemma quotient_lower:
  assumes "0 < x" and "binary64Exponent x = \<lfloor>log 2 x\<rfloor> - 52"
  shows "2 ^ 52 \<le> x / 2 powr real_of_int (binary64Exponent x)"
proof -
  let ?E = "\<lfloor>log 2 x\<rfloor>" and ?e = "binary64Exponent x"
  from assms(2) have "real_of_int ?E = real_of_int ?e + 52" by simp
  with floor_log2_bounds [OF assms(1)] have "2 powr (real_of_int ?e + 52) \<le> x" by simp
  moreover have "2 powr (real_of_int ?e + 52) = 2 powr real_of_int ?e * 2 ^ 52"
    by (simp add: powr_add)
  ultimately show ?thesis by (simp add: le_divide_eq mult.commute)
qed

lemma binary64Pos_nearest:
  "binary64Pos x = (if 2 ^ 1024 \<le> nearest x then PosInfinity else Finite (nearest x))"
  by (simp add: binary64Pos_def nearest_def Let_def)

lemma nearest_upper:
  assumes "0 < x"
  shows "nearest x \<le> 2 powr (real_of_int (binary64Exponent x) + 53)"
proof -
  let ?q = "2 powr real_of_int (binary64Exponent x)"
  have "x / ?q \<le> real_of_int (2 ^ 53)" using quotient_upper [OF assms] by simp
  then have "roundEven (x / ?q) \<le> 2 ^ 53" by (rule roundEven_le_of_int)
  then have "real_of_int (roundEven (x / ?q)) \<le> real_of_int (2 ^ 53)"
    by (simp only: of_int_le_iff)
  then have "real_of_int (roundEven (x / ?q)) \<le> 2 ^ 53" by simp
  then have "real_of_int (roundEven (x / ?q)) * ?q \<le> 2 ^ 53 * ?q"
    by (intro mult_right_mono) simp_all
  then show ?thesis by (simp add: nearest_def powr_add mult.commute)
qed

lemma nearest_lower:
  assumes "0 < x" and "binary64Exponent x = \<lfloor>log 2 x\<rfloor> - 52"
  shows "2 powr (real_of_int (binary64Exponent x) + 52) \<le> nearest x"
proof -
  let ?q = "2 powr real_of_int (binary64Exponent x)"
  have "real_of_int (2 ^ 52) \<le> x / ?q" using quotient_lower [OF assms] by simp
  then have "2 ^ 52 \<le> roundEven (x / ?q)" by (rule roundEven_ge_of_int)
  then have "real_of_int (2 ^ 52) \<le> real_of_int (roundEven (x / ?q))"
    by (simp only: of_int_le_iff)
  then have "2 ^ 52 \<le> real_of_int (roundEven (x / ?q))" by simp
  then have "2 ^ 52 * ?q \<le> real_of_int (roundEven (x / ?q)) * ?q"
    by (intro mult_right_mono) simp_all
  then show ?thesis by (simp add: nearest_def powr_add mult.commute)
qed

lemma nearest_nonneg:
  assumes "0 < x"
  shows "0 \<le> nearest x"
proof -
  let ?q = "2 powr real_of_int (binary64Exponent x)"
  from assms have "real_of_int 0 \<le> x / ?q" by simp
  then have "0 \<le> roundEven (x / ?q)" by (rule roundEven_ge_of_int)
  then show ?thesis by (simp add: nearest_def)
qed

lemma nearest_mono:
  assumes "0 < x" and "x \<le> y"
  shows "nearest x \<le> nearest y"
proof -
  from assms have y: "0 < y" by simp
  let ?ex = "binary64Exponent x" and ?ey = "binary64Exponent y"
  from binary64Exponent_mono [OF assms] have "?ex \<le> ?ey" .
  then consider "?ex = ?ey" | "?ex < ?ey" by linarith
  then show ?thesis
  proof cases
    case 1
    let ?q = "2 powr real_of_int ?ex"
    from assms(2) have "x / ?q \<le> y / ?q" by (simp add: divide_right_mono)
    then have "roundEven (x / ?q) \<le> roundEven (y / ?q)" by (rule roundEven_mono)
    then have "real_of_int (roundEven (x / ?q)) * ?q \<le> real_of_int (roundEven (y / ?q)) * ?q"
      by (intro mult_right_mono) simp_all
    with 1 show ?thesis by (simp add: nearest_def)
  next
    case 2
    have "- 1074 \<le> ?ex" by (simp add: binary64Exponent_def)
    with 2 have "?ey = \<lfloor>log 2 y\<rfloor> - 52" by (simp add: binary64Exponent_def max_def split: if_splits)
    from nearest_lower [OF y this] have low: "2 powr (real_of_int ?ey + 52) \<le> nearest y" .
    from 2 have "real_of_int ?ex + 53 \<le> real_of_int ?ey + 52" by linarith
    then have "2 powr (real_of_int ?ex + 53) \<le> 2 powr (real_of_int ?ey + 52)" by simp
    with nearest_upper [OF assms(1)] low show ?thesis by linarith
  qed
qed

lemma binary64Pos_mono:
  assumes "0 < x" and "x \<le> y"
  shows "js_le (binary64Pos x) (binary64Pos y)"
  using nearest_mono [OF assms] by (simp add: binary64Pos_nearest)

lemma binary64Pos_nonneg:
  assumes "0 < x"
  shows "js_le (Finite 0) (binary64Pos x)"
  using nearest_nonneg [OF assms] by (simp add: binary64Pos_nearest)

lemma js_le_neg: "js_le a b \<Longrightarrow> js_le (js_neg b) (js_neg a)"
  by (cases a; cases b) auto

lemma js_le_trans: "js_le a b \<Longrightarrow> js_le b c \<Longrightarrow> js_le a c"
  by (cases a; cases b; cases c) auto

lemma js_neg_neg: "js_neg (js_neg a) = a"
  by (cases a) auto

lemma binary64_neg: "binary64 (- x) = js_neg (binary64 x)"
  by (simp add: binary64_def js_neg_neg)

lemma binary64_mono:
  assumes "x \<le> y"
  shows "js_le (binary64 x) (binary64 y)"
proof -
  consider "0 < x" | "x = 0" | "x < 0" by linarith
  then show ?thesis
  proof cases
    case 1
    with assms show ?thesis by (simp add: binary64_def binary64Pos_mono)
  next
    case 2
    with assms show ?thesis by (auto simp: binary64_def binary64Pos_nonneg)
  next
    case 3
    consider "y < 0" | "y = 0" | "0 < y" by linarith
    then show ?thesis
    proof cases
      case 1
      with assms have "0 < - y" "- y \<le> - x" by simp_all
      from js_le_neg [OF binary64Pos_mono [OF this]] 3 1 show ?thesis
        by (simp add: binary64_def)
    next
      case 2
      from 3 have "0 < - x" by simp
      from js_le_neg [OF binary64Pos_nonneg [OF this]] 3 2 show ?thesis
        by (simp add: binary64_def)
    next
      case 3
      from \<open>x < 0\<close> have "0 < - x" by simp
      from js_le_neg [OF binary64Pos_nonneg [OF this]]
      have "js_le (js_neg (binary64Pos (- x))) (Finite 0)" by simp
      from js_le_trans [OF this binary64Pos_nonneg [OF 3]] \<open>x < 0\<close> 3 show ?thesis
        by (simp add: binary64_def)
    qed
  qed
qed

lemma rounding_binary64: "rounding binary64"
  by (simp add: rounding_def binary64_mono binary64_neg)

text \<open>A positive multiple of its own quantum, below the overflow threshold, is a double.\<close>

lemma binary64Pos_exact:
  assumes "x < 2 ^ 1024"
    and "x / 2 powr real_of_int (binary64Exponent x) = real_of_int k"
  shows "binary64Pos x = Finite x"
proof -
  let ?q = "2 powr real_of_int (binary64Exponent x)"
  have q: "?q \<noteq> 0" by simp
  from assms(2) have "nearest x = real_of_int k * ?q"
    by (simp add: nearest_def roundEven_of_int)
  also from assms(2) q have "\<dots> = x" by (simp add: field_simps)
  finally have "nearest x = x" .
  with assms(1) show ?thesis by (simp add: binary64Pos_nearest)
qed

lemma binary64Pos_of_int:
  assumes "0 < n" and "n \<le> 2 ^ 53"
  shows "binary64Pos (real_of_int n) = Finite (real_of_int n)"
proof -
  let ?x = "real_of_int n"
  let ?E = "\<lfloor>log 2 ?x\<rfloor>" and ?e = "binary64Exponent ?x"
  from assms(1) have x: "0 < ?x" by simp
  from assms(2) have le: "?x \<le> 2 ^ 53"
    using of_int_le_iff [of n "2 ^ 53", where ?'a = real] by simp
  then have small: "?x < 2 ^ 1024"
    using power_strict_increasing [of 53 1024 "2::real"] by simp
  from le have "?x < 2 powr 54" by simp
  with x have "log 2 ?x < 54" by (simp add: log_less_iff)
  then have "?E < 54" by (simp add: floor_less_iff)
  then have E: "?E \<le> 53" by simp
  then have e: "?e \<le> 1" by (simp add: binary64Exponent_def)
  show ?thesis
  proof (cases "?e \<le> 0")
    case True
    define k where "k = nat (- ?e)"
    with True have "real_of_int ?e = - real k" by simp
    then have "2 powr real_of_int ?e = 1 / 2 ^ k"
      by (simp add: powr_minus powr_realpow inverse_eq_divide)
    then have "?x / 2 powr real_of_int ?e = real_of_int (n * 2 ^ k)" by simp
    with small show ?thesis by (rule binary64Pos_exact)
  next
    case False
    with e have one: "?e = 1" by simp
    then have "?E = 53" using E by (simp add: binary64Exponent_def max_def split: if_splits)
    with floor_log2_bounds [OF x] have "2 powr 53 \<le> ?x" by simp
    with le have "?x = 2 ^ 53" by simp
    then have "?x / 2 powr real_of_int ?e = real_of_int (2 ^ 52)" using one by simp
    with small show ?thesis by (rule binary64Pos_exact)
  qed
qed

lemma exactOnIntegers_binary64: "exactOnIntegers binary64"
  unfolding exactOnIntegers_def
proof (intro allI impI)
  fix n :: int
  assume a: "\<bar>n\<bar> \<le> 2 ^ 53"
  consider "n = 0" | "0 < n" | "n < 0" by linarith
  then show "binary64 (real_of_int n) = Finite (real_of_int n)"
  proof cases
    case 1
    then show ?thesis by (simp add: binary64_def)
  next
    case 2
    with a have "n \<le> 2 ^ 53" by simp
    from binary64Pos_of_int [OF 2 this] 2 show ?thesis by (simp add: binary64_def)
  next
    case 3
    with a have "0 < - n" "- n \<le> 2 ^ 53" by simp_all
    from binary64Pos_of_int [OF this] 3 show ?thesis by (simp add: binary64_def)
  qed
qed



section \<open>Where the rounding shows\<close>

text \<open>
  A row of \<open>2^58\<close> pixels followed by one of \<open>2^57\<close>: an offset of 11 pixels is lost in
  the sum with the midpoint, and the second row stays where it is, whereas without
  rounding it would give way.
\<close>

lemma binary64_absorbs_offset: "binary64 (3 * 2 ^ 57 + 11) = Finite (3 * 2 ^ 57)"
proof -
  let ?x = "3 * 2 ^ 57 + 11 :: real"
  have "\<lfloor>log 2 ?x\<rfloor> = 58"
    by (subst floor_log_eq_powr_iff) simp_all
  then have e: "binary64Exponent ?x = 6" by (simp add: binary64Exponent_def)
  have "?x / 2 powr 6 = real_of_int (3 * 2 ^ 51) + 11 / 64" by simp
  then have "roundEven (?x / 2 powr 6) = 3 * 2 ^ 51"
    by (simp add: roundEven_def Let_def)
  with e have "nearest ?x = 3 * 2 ^ 57" by (simp add: nearest_def)
  then show ?thesis by (simp add: binary64_def binary64Pos_nearest)
qed

lemma huge_rows_binary64:
  "newMovementSeq binary64 0 (2 ^ 58) (Finite (3 * 2 ^ 57))
     [Finite (2 ^ 58), Finite (3 * 2 ^ 57)] 11 = [11, 0]"
proof -
  note ex = exactOnIntegers_binary64
  have "binary64 (3 * 2 ^ 57 + 11) = Finite (3 * 2 ^ 57)" by (rule binary64_absorbs_offset)
  then have "binary64 (432345564227567627) = Finite 432345564227567616" by simp
  then show ?thesis
    by (simp add: newMovementSeq_def js_map_def rowMovement_def matchDirection_def
        overMidPoint_def js_sub_def fl_numeral [OF ex] fl_zero [OF ex])
qed

lemma huge_rows_exactRounding:
  "newMovementSeq exactRounding 0 (2 ^ 58) (Finite (3 * 2 ^ 57))
     [Finite (2 ^ 58), Finite (3 * 2 ^ 57)] 11 = [11, - (2 ^ 58)]"
  by (simp add: newMovementSeq_def js_map_def rowMovement_def matchDirection_def
      overMidPoint_def js_sub_def exactRounding_def)

lemma binary64_overflow:
  "pushBottoms binary64 (Finite 0) [2 ^ 1023, 2 ^ 1023, 2 ^ 1023] =
     [Finite (2 ^ 1023), PosInfinity, PosInfinity]"
proof -
  have "\<lfloor>log 2 (2 ^ 1023 :: real)\<rfloor> = 1023"
    by (subst floor_log_eq_powr_iff) simp_all
  then have e1: "binary64Exponent (2 ^ 1023) = 971"
    unfolding binary64Exponent_def by simp
  have "(2 ^ 1023 :: real) / 2 powr 971 = real_of_int (2 ^ 52)" by simp
  with e1 have "binary64Pos (2 ^ 1023) = Finite (2 ^ 1023)"
    using binary64Pos_exact [of "2 ^ 1023" "2 ^ 52"] by simp
  then have one: "binary64 (2 ^ 1023) = Finite (2 ^ 1023)" by (simp add: binary64_def)
  have "\<lfloor>log 2 (2 ^ 1024 :: real)\<rfloor> = 1024"
    by (subst floor_log_eq_powr_iff) simp_all
  then have e2: "binary64Exponent (2 ^ 1024) = 972"
    unfolding binary64Exponent_def by simp
  have "(2 ^ 1024 :: real) / 2 powr 972 = real_of_int (2 ^ 52)" by simp
  with e2 have "nearest (2 ^ 1024) = 2 ^ 1024" by (simp add: nearest_def roundEven_numeral)
  then have "binary64Pos (2 ^ 1024) = PosInfinity" by (simp add: binary64Pos_nearest)
  then have two: "binary64 (2 ^ 1024) = PosInfinity" by (simp add: binary64_def)
  have "(2 ^ 1023 :: real) + 2 ^ 1023 = 2 ^ 1024" by simp
  with one two show ?thesis by simp
qed


text \<open>
  With a source row of height 40 followed by two rows of height 5, the two rows are
  displaced together in rounded arithmetic too, at every offset.
\<close>

lemma small_rows_displaced_together:
  assumes r: "rounding fl" and ex: "exactOnIntegers fl"
    and one: "newMovementSeq fl 0 40 (Finite 60) [Finite 40, Finite 45, Finite 50] dy ! 1 \<noteq> 0"
  shows "newMovementSeq fl 0 40 (Finite 60) [Finite 40, Finite 45, Finite 50] dy ! 2 \<noteq> 0"
proof -
  from one have "matchDirection fl 0 dy 1"
    by (simp add: nth_newMovementSeq rowMovement_displaced_iff)
  then have g: "js_gt (fl dy) 0" by (simp add: matchDirection_def)
  with r have dy: "0 < dy" by (rule fl_pos_imp)
  then have "dy \<le> dy * 2" by simp
  from fl_gt_mono [OF r this g] have md: "matchDirection fl 0 dy 2"
    by (simp add: matchDirection_def)
  let ?M = "js_add fl (Finite 60) (Finite dy)"
  from dy have "60 \<le> 60 + dy" by simp
  from rounding_mono [OF r this] have "js_le (Finite 60) ?M"
    by (simp add: fl_numeral [OF ex])
  from js_sub_mono_left [OF r this, of 50]
  have "js_le (Finite 10) (js_sub fl ?M (Finite 50))"
    by (simp add: js_sub_def fl_numeral [OF ex])
  from js_sub_mono_left [OF r this, of 0]
  have ten: "js_le (Finite 10) (js_sub fl (js_sub fl ?M (Finite 50)) (Finite 0))"
    by (simp add: js_sub_def fl_numeral [OF ex])
  have "js_gt (js_mul fl (Finite dy) (js_sub fl (js_sub fl ?M (Finite 50)) (Finite 0))) 0"
  proof (cases "js_sub fl (js_sub fl ?M (Finite 50)) (Finite 0)")
    case (Finite x)
    with ten have "10 \<le> x" by simp
    with dy have "dy * 1 \<le> dy * x" by (intro mult_left_mono) simp_all
    then have "dy \<le> dy * x" by simp
    from fl_gt_mono [OF r this g] Finite show ?thesis by simp
  next
    case PosInfinity
    with dy show ?thesis by simp
  next
    case NegInfinity
    with ten show ?thesis by simp
  next
    case NaN
    with ten show ?thesis by simp
  qed
  with dy have "overMidPoint fl 40 (Finite 60) dy (Finite 50)"
    by (simp add: overMidPoint_def)
  with md show ?thesis
    by (simp add: nth_newMovementSeq rowMovement_displaced_iff)
qed

end
